theory Spec2Isabelle
  imports
    Main
    "HOL-Library.Multiset"
    "HOL-Library.Char_ord"
    "HOL-Library.List_Lexorder"
    "HOL-Library.Sublist"
begin

section \<open>Errors\<close>

text \<open>
  A Go \<^verbatim>\<open>error\<close> is \<open>error option\<close>, with \<open>None\<close> for \<^verbatim>\<open>nil\<close>.
  \<open>SkipDir\<close> is the sentinel \<^verbatim>\<open>filepath.SkipDir\<close>, which the walker compares by
  identity; \<open>ErrorString\<close> is any other error value; \<open>WithStack\<close> is the wrapper that
  \<^verbatim>\<open>errors.WithStack\<close> puts around a non-nil error.
\<close>

datatype error = SkipDir | ErrorString string | WithStack error

definition errors_New :: "string \<Rightarrow> error" where
  "errors_New msg = ErrorString msg"

definition errors_WithStack :: "error option \<Rightarrow> error option" where
  "errors_WithStack err = (case err of None \<Rightarrow> None | Some e \<Rightarrow> Some (WithStack e))"

text \<open>\<open>wraps r e\<close>: \<open>r\<close> is \<open>e\<close> under one or more \<open>WithStack\<close> layers.\<close>

fun wraps :: "error \<Rightarrow> error \<Rightarrow> bool" where
  "wraps (WithStack r) e = (r = e \<or> wraps r e)"
| "wraps SkipDir e = False"
| "wraps (ErrorString s) e = False"

section \<open>Discovered records\<close>

text \<open>
  \<^verbatim>\<open>services.ServiceConfig\<close> and \<^verbatim>\<open>services.ServiceGroupConfig\<close> are declared outside
  this package; only their \<^verbatim>\<open>Name\<close> field is read here. The other fields are the
  opaque component \<open>Other\<close>.
\<close>

record 'a ServiceConfig =
  Name :: string
  Other :: 'a

record 'a ServiceGroupConfig =
  Name :: string
  Other :: 'a

section \<open>Generators\<close>

text \<open>
  A value of the interface \<^verbatim>\<open>Generator\<close> is its method table. The methods act on a
  state \<open>'w\<close> that holds whatever the generator objects of a run own; two entries of a
  list may act on the same part of it (the same object listed twice). The optional
  interfaces \<^verbatim>\<open>ServiceGenerator\<close>, \<^verbatim>\<open>GroupGenerator\<close> and \<^verbatim>\<open>ImportGenerator\<close> are
  the type assertions of the source: \<open>None\<close> when the assertion fails, otherwise the
  method \<^verbatim>\<open>Services\<close>, \<^verbatim>\<open>Groups\<close> or \<^verbatim>\<open>Imports\<close>.
\<close>

record ('w, 's, 'r) Generator =
  Name :: "'w \<Rightarrow> string"
  StartWalk :: "string \<Rightarrow> 'w \<Rightarrow> 'w"
  StopWalk :: "'w \<Rightarrow> 'w"
  VisitDir :: "string \<Rightarrow> 'w \<Rightarrow> (bool \<times> error option) \<times> 'w"
  Err :: "'w \<Rightarrow> error option"
  SetErr :: "error option \<Rightarrow> 'w \<Rightarrow> 'w"
  ServiceGenerator :: "('w \<Rightarrow> 's ServiceConfig list) option"
  GroupGenerator :: "('w \<Rightarrow> 'r ServiceGroupConfig list) option"
  ImportGenerator :: "('w \<Rightarrow> string list) option"

record generatorBase =
  err :: "error option"
  basePath :: string

definition generatorBase_Err :: "generatorBase \<Rightarrow> error option" where
  "generatorBase_Err e = err e"

definition generatorBase_SetErr :: "error option \<Rightarrow> generatorBase \<Rightarrow> generatorBase" where
  "generatorBase_SetErr x e = e\<lparr>err := x\<rparr>"

definition generatorBase_StartWalk :: "string \<Rightarrow> generatorBase \<Rightarrow> generatorBase" where
  "generatorBase_StartWalk p b = b\<lparr>err := None, basePath := p\<rparr>"

section \<open>The directory tree\<close>

text \<open>
  \<^verbatim>\<open>ignore.GitIgnore\<close> is the compiled matcher of the ignore library: it is what its
  method \<^verbatim>\<open>MatchesPath\<close> answers.
\<close>

datatype GitIgnore = GitIgnore (MatchesPath: "string \<Rightarrow> bool")

text \<open>
  A \<^verbatim>\<open>*directory\<close> is \<open>directory option\<close>, \<open>None\<close> for \<^verbatim>\<open>nil\<close>. \<open>Parent\<close> is the
  back-reference: it holds the parent as it is when the child is built (\<open>Path\<close>,
  \<open>Parent\<close> and \<open>ignores\<close> are final by then; the children appended to the parent
  later are not seen through it, and no code reads them through it).
\<close>

datatype directory =
  Directory (Path: string) (Parent: "directory option")
    (children: "directory option list") (ignores: "GitIgnore option")

fun Ignores :: "directory \<Rightarrow> GitIgnore option" where
  "Ignores (Directory path parent cs ign) =
     (case ign of
        Some r \<Rightarrow> Some r
      | None \<Rightarrow> (case parent of Some p \<Rightarrow> Ignores p | None \<Rightarrow> None))"

text \<open>
  The file system below a directory, as the builder reads it. \<open>ignore_file\<close> is what
  \<^verbatim>\<open>os.Stat\<close> and \<^verbatim>\<open>ignore.CompileIgnoreFile\<close> give for the \<^verbatim>\<open>.edwardignore\<close> of
  the directory: the stat fails with an error that \<^verbatim>\<open>os.IsNotExist\<close> accepts, it fails
  with another error, or it succeeds and the compilation returns a pair. \<open>fsdir\<close> is a
  directory: its ignore file, the error of \<^verbatim>\<open>ioutil.ReadDir\<close> and the entries it
  lists, in listing order.
\<close>

datatype ignore_file =
  NotExist
| StatFails error
| Compiled "GitIgnore option" "error option"

datatype fsdir = FsDir ignore_file "error option" "fsentry list"
and fsentry = RegularFile string | SubDir string fsdir

fun loadIgnores :: "ignore_file \<Rightarrow> GitIgnore option \<Rightarrow> GitIgnore option \<times> error option" where
  "loadIgnores NotExist currentIgnores = (currentIgnores, None)"
| "loadIgnores (StatFails e) currentIgnores = (currentIgnores, errors_WithStack (Some e))"
| "loadIgnores (Compiled ign e) currentIgnores = (ign, errors_WithStack e)"

text \<open>
  \<open>NewDirectory join path parent fs\<close>, with \<open>fs\<close> the directory found at \<open>path\<close> and
  \<open>join\<close> standing for \<^verbatim>\<open>filepath.Join\<close>. \<open>NewDirectory_files\<close> is the loop over the
  listed entries; its last argument is the node \<open>d\<close> under construction.
\<close>

fun NewDirectory ::
    "(string \<Rightarrow> string \<Rightarrow> string) \<Rightarrow> string \<Rightarrow> directory option \<Rightarrow> fsdir
      \<Rightarrow> error + directory option"
and NewDirectory_files ::
    "(string \<Rightarrow> string \<Rightarrow> string) \<Rightarrow> fsentry list \<Rightarrow> directory \<Rightarrow> error + directory option"
where
  "NewDirectory join path parent (FsDir ignf rderr files) =
     (if parent \<noteq> None \<and> Ignores (the parent) \<noteq> None
         \<and> MatchesPath (the (Ignores (the parent))) path
      then Inr None
      else
        (case loadIgnores ignf None of
           (ign, Some e) \<Rightarrow> Inl (WithStack e)
         | (ign, None) \<Rightarrow>
             (case rderr of
                Some e \<Rightarrow> Inl (WithStack e)
              | None \<Rightarrow> NewDirectory_files join files (Directory path parent [] ign))))"
| "NewDirectory_files join [] d = Inr (Some d)"
| "NewDirectory_files join (RegularFile name # files) d = NewDirectory_files join files d"
| "NewDirectory_files join (SubDir name sub # files) d =
     (case NewDirectory join (join (Path d) name) (Some d) sub of
        Inl e \<Rightarrow> Inl (WithStack e)
      | Inr child \<Rightarrow>
          NewDirectory_files join files
            (Directory (Path d) (Parent d) (children d @ [child]) (ignores d)))"

section \<open>The walk\<close>

text \<open>
  \<open>Generate_visit\<close> is the first loop of \<^verbatim>\<open>directory.Generate\<close>: the generators still
  to offer the directory to, and \<^verbatim>\<open>childGenerators\<close> so far. It returns the error that
  ends the walk, or the final \<^verbatim>\<open>childGenerators\<close>.
\<close>

fun Generate_visit ::
    "string \<Rightarrow> ('w, 's, 'r) Generator list \<Rightarrow> ('w, 's, 'r) Generator list \<Rightarrow> 'w
      \<Rightarrow> (error + ('w, 's, 'r) Generator list) \<times> 'w" where
  "Generate_visit path [] childGenerators w = (Inr childGenerators, w)"
| "Generate_visit path (generator # rest) childGenerators w =
     (case VisitDir generator path w of
        ((found, e), w') \<Rightarrow>
          if e \<noteq> None \<and> e \<noteq> Some SkipDir then (Inl (WithStack (the e)), w')
          else
            let childGenerators' =
                  (if e \<noteq> Some SkipDir then childGenerators @ [generator]
                   else childGenerators)
            in if found then (Inr childGenerators', w')
               else Generate_visit path rest childGenerators' w')"

function directory_Generate ::
    "directory option \<Rightarrow> ('w, 's, 'r) Generator list \<Rightarrow> 'w \<Rightarrow> error option \<times> 'w"
and Generate_children ::
    "directory option list \<Rightarrow> ('w, 's, 'r) Generator list \<Rightarrow> 'w \<Rightarrow> error option \<times> 'w"
where
  "directory_Generate None generators w = (None, w)"
| "directory_Generate (Some d) generators w =
     (if length generators = 0 then (None, w)
      else
        (case Generate_visit (Path d) generators [] w of
           (Inl e, w') \<Rightarrow> (Some e, w')
         | (Inr childGenerators, w') \<Rightarrow> Generate_children (children d) childGenerators w'))"
| "Generate_children [] childGenerators w = (None, w)"
| "Generate_children (child # cs) childGenerators w =
     (case directory_Generate child childGenerators w of
        (Some e, w') \<Rightarrow> (Some (WithStack e), w')
      | (None, w') \<Rightarrow> Generate_children cs childGenerators w')"
  by pat_completeness auto

termination directory_Generate
proof (relation "measure (\<lambda>x. case x of
          Inl (d, gs, w) \<Rightarrow> size_option size d
        | Inr (cs, gs, w) \<Rightarrow> size_list (size_option size) cs)", goal_cases)
  case 1
  show ?case by simp
next
  case (2 d generators w x y cg)
  show ?case by (cases d) simp
next
  case 3
  show ?case by simp
next
  case 4
  show ?case by simp
qed

section \<open>The collection\<close>

record ('w, 's, 'r) GeneratorCollection =
  Generators :: "('w, 's, 'r) Generator list"
  Path :: string
  Targets :: "string list"

text \<open>
  What \<^verbatim>\<open>os.Stat\<close> finds at the root path: an error, something that is not a
  directory, or a directory.
\<close>

datatype fsnode = StatError error | NotADirectory | IsDirectory fsdir

text \<open>
  \<^verbatim>\<open>GeneratorCollection.Generate\<close>. The deferred function runs after the walk has
  returned, whatever it returned; the returns before the \<^verbatim>\<open>defer\<close> statement leave
  without it.
\<close>

definition Generate ::
    "(string \<Rightarrow> string \<Rightarrow> string) \<Rightarrow> fsnode \<Rightarrow> ('w, 's, 'r) GeneratorCollection \<Rightarrow> 'w
      \<Rightarrow> error option \<times> 'w" where
  "Generate join fs g w =
     (case fs of
        StatError e \<Rightarrow> (Some (WithStack e), w)
      | NotADirectory \<Rightarrow>
          (Some (errors_New (GeneratorCollection.Path g @ '' is not a directory'')), w)
      | IsDirectory root \<Rightarrow>
          (case NewDirectory join (GeneratorCollection.Path g) None root of
             Inl e \<Rightarrow> (Some (WithStack e), w)
           | Inr dir \<Rightarrow>
               let w1 = fold (\<lambda>generator. StartWalk generator (GeneratorCollection.Path g))
                          (Generators g) w;
                   (res, w2) = directory_Generate dir (Generators g) w1;
                   w3 = fold (\<lambda>generator. StopWalk generator) (Generators g) w2
               in (errors_WithStack res, w3)))"

text \<open>
  \<^verbatim>\<open>sort.Sort\<close> is the standard library's; the aggregation functions take it as the
  parameter \<open>sort_Sort\<close>, applied to the \<^verbatim>\<open>Less\<close> of \<^verbatim>\<open>ByName\<close> or \<^verbatim>\<open>ByGroupName\<close>.
  The comparison of Go strings is the lexicographic order on their bytes.
\<close>

definition ByName_Less :: "'s ServiceConfig \<Rightarrow> 's ServiceConfig \<Rightarrow> bool" where
  "ByName_Less a b = (ServiceConfig.Name a < ServiceConfig.Name b)"

definition ByGroupName_Less :: "'r ServiceGroupConfig \<Rightarrow> 'r ServiceGroupConfig \<Rightarrow> bool" where
  "ByGroupName_Less a b = (ServiceGroupConfig.Name a < ServiceGroupConfig.Name b)"

text \<open>
  The first loop of \<^verbatim>\<open>Services\<close>: \<^verbatim>\<open>outServices\<close> and the map
  \<^verbatim>\<open>serviceToGenerator\<close>, which is written and never read.
\<close>

definition Services_collect ::
    "('w, 's, 'r) Generator list \<Rightarrow> 'w
      \<Rightarrow> 's ServiceConfig list \<times> (string \<rightharpoonup> string)" where
  "Services_collect gens w =
     fold (\<lambda>generator (outServices, serviceToGenerator).
             case ServiceGenerator generator of
               Some services \<Rightarrow>
                 if Err generator w = None then
                   let found = services w
                   in (outServices @ found,
                       fold (\<lambda>service m.
                               m(ServiceConfig.Name service \<mapsto> Generator.Name generator w))
                         found serviceToGenerator)
                 else (outServices, serviceToGenerator)
             | None \<Rightarrow> (outServices, serviceToGenerator))
       gens ([], Map.empty)"

definition Services ::
    "(('s ServiceConfig \<Rightarrow> 's ServiceConfig \<Rightarrow> bool)
        \<Rightarrow> 's ServiceConfig list \<Rightarrow> 's ServiceConfig list)
      \<Rightarrow> ('w, 's, 'r) GeneratorCollection \<Rightarrow> 'w \<Rightarrow> 's ServiceConfig list" where
  "Services sort_Sort g w =
     (let outServices = fst (Services_collect (Generators g) w)
      in if length (Targets g) = 0 then sort_Sort ByName_Less outServices
         else
           let filterMap = fold (\<lambda>name m. m(name \<mapsto> ())) (Targets g) Map.empty;
               filteredServices =
                 fold (\<lambda>service acc.
                         if filterMap (ServiceConfig.Name service) \<noteq> None
                         then acc @ [service] else acc)
                   outServices []
           in sort_Sort ByName_Less filteredServices)"

definition Groups_collect ::
    "('w, 's, 'r) Generator list \<Rightarrow> 'w
      \<Rightarrow> 'r ServiceGroupConfig list \<times> (string \<rightharpoonup> string)" where
  "Groups_collect gens w =
     fold (\<lambda>generator (outGroups, groupToGenerator).
             case GroupGenerator generator of
               Some groups \<Rightarrow>
                 if Err generator w = None then
                   let found = groups w
                   in (outGroups @ found,
                       fold (\<lambda>group m.
                               m(ServiceGroupConfig.Name group \<mapsto> Generator.Name generator w))
                         found groupToGenerator)
                 else (outGroups, groupToGenerator)
             | None \<Rightarrow> (outGroups, groupToGenerator))
       gens ([], Map.empty)"

definition Groups ::
    "(('r ServiceGroupConfig \<Rightarrow> 'r ServiceGroupConfig \<Rightarrow> bool)
        \<Rightarrow> 'r ServiceGroupConfig list \<Rightarrow> 'r ServiceGroupConfig list)
      \<Rightarrow> ('w, 's, 'r) GeneratorCollection \<Rightarrow> 'w \<Rightarrow> 'r ServiceGroupConfig list" where
  "Groups sort_Sort g w =
     (let outGroups = fst (Groups_collect (Generators g) w)
      in if length (Targets g) = 0 then sort_Sort ByGroupName_Less outGroups
         else
           let filterMap = fold (\<lambda>name m. m(name \<mapsto> ())) (Targets g) Map.empty;
               filteredGroups =
                 fold (\<lambda>group acc.
                         if filterMap (ServiceGroupConfig.Name group) \<noteq> None
                         then acc @ [group] else acc)
                   outGroups []
           in sort_Sort ByGroupName_Less filteredGroups)"

definition Imports :: "('w, 's, 'r) GeneratorCollection \<Rightarrow> 'w \<Rightarrow> string list" where
  "Imports g w =
     fold (\<lambda>generator outImports.
             case ImportGenerator generator of
               Some imports \<Rightarrow>
                 if Err generator w = None then outImports @ imports w else outImports
             | None \<Rightarrow> outImports)
       (Generators g) []"

section \<open>Notions used to state the properties\<close>

text \<open>What one generator contributes to \<^verbatim>\<open>Imports\<close>, in the words of the specification.\<close>

definition trusted_imports :: "('w, 's, 'r) Generator \<Rightarrow> 'w \<Rightarrow> string list" where
  "trusted_imports G w =
     (case ImportGenerator G of
        Some imports \<Rightarrow> if Err G w = None then imports w else []
      | None \<Rightarrow> [])"

text \<open>A node followed by its ancestors, nearest first.\<close>

fun Parent_chain :: "directory \<Rightarrow> directory list" where
  "Parent_chain (Directory path parent cs ign) =
     Directory path parent cs ign # (case parent of Some p \<Rightarrow> Parent_chain p | None \<Rightarrow> [])"

text \<open>
  What one generator contributes to \<^verbatim>\<open>Services\<close> and to \<^verbatim>\<open>Groups\<close>, in the words of the
  specification.
\<close>

definition trusted_services :: "('w, 's, 'r) Generator \<Rightarrow> 'w \<Rightarrow> 's ServiceConfig list" where
  "trusted_services G w =
     (case ServiceGenerator G of
        Some services \<Rightarrow> if Err G w = None then services w else []
      | None \<Rightarrow> [])"

definition trusted_groups :: "('w, 's, 'r) Generator \<Rightarrow> 'w \<Rightarrow> 'r ServiceGroupConfig list" where
  "trusted_groups G w =
     (case GroupGenerator G of
        Some groups \<Rightarrow> if Err G w = None then groups w else []
      | None \<Rightarrow> [])"

text \<open>
  What \<^verbatim>\<open>sort.Sort\<close> promises for a \<^verbatim>\<open>Less\<close>: the result holds the same elements, and no
  element is \<^verbatim>\<open>Less\<close> than one before it.
\<close>

definition sort_Sort_contract :: "('a \<Rightarrow> 'a \<Rightarrow> bool) \<Rightarrow> ('a list \<Rightarrow> 'a list) \<Rightarrow> bool" where
  "sort_Sort_contract lt srt =
     (\<forall>xs. mset (srt xs) = mset xs \<and> sorted_wrt (\<lambda>a b. \<not> lt b a) (srt xs))"

text \<open>
  The result of \<^verbatim>\<open>Services\<close> and \<^verbatim>\<open>Groups\<close> before sorting, in the words of the
  specification: the working sequence, filtered by the allow-list when there is one.
\<close>

definition Services_spec :: "('w, 's, 'r) GeneratorCollection \<Rightarrow> 'w \<Rightarrow> 's ServiceConfig list" where
  "Services_spec g w =
     (let working = concat (map (\<lambda>G. trusted_services G w) (Generators g))
      in if Targets g = [] then working
         else filter (\<lambda>s. ServiceConfig.Name s \<in> set (Targets g)) working)"

definition Groups_spec :: "('w, 's, 'r) GeneratorCollection \<Rightarrow> 'w \<Rightarrow> 'r ServiceGroupConfig list" where
  "Groups_spec g w =
     (let working = concat (map (\<lambda>G. trusted_groups G w) (Generators g))
      in if Targets g = [] then working
         else filter (\<lambda>s. ServiceGroupConfig.Name s \<in> set (Targets g)) working)"

text \<open>A generator with fixed answers, and a collection of three of them.\<close>

definition example_generator ::
    "string \<Rightarrow> error option \<Rightarrow> string list \<Rightarrow> string list \<Rightarrow> (unit, string, string) Generator" where
  "example_generator n e ss gs =
     \<lparr>Generator.Name = (\<lambda>w. n), StartWalk = (\<lambda>p w. w), StopWalk = (\<lambda>w. w),
      VisitDir = (\<lambda>p w. ((False, None), w)), Err = (\<lambda>w. e), SetErr = (\<lambda>x w. w),
      ServiceGenerator = Some (\<lambda>w. map (\<lambda>s. \<lparr>ServiceConfig.Name = s, Other = n\<rparr>) ss),
      GroupGenerator = Some (\<lambda>w. map (\<lambda>s. \<lparr>ServiceGroupConfig.Name = s, Other = n\<rparr>) gs),
      ImportGenerator = None\<rparr>"

definition example_collection :: "string list \<Rightarrow> (unit, string, string) GeneratorCollection" where
  "example_collection ts =
     \<lparr>Generators =
        [example_generator ''g1'' None [''b'', ''a''] [''y''],
         example_generator ''g2'' (Some (ErrorString ''failed'')) [''c''] [''x''],
         example_generator ''g3'' None [''a''] [''x'', ''y'']],
      Path = ''root'', Targets = ts\<rparr>"

text \<open>
  The calls a run makes on its generators. \<open>traced k G\<close> is the generator \<open>G\<close> with a
  log beside its state: every method that changes state appends the call, with \<open>k\<close>
  naming the generator and, for \<^verbatim>\<open>VisitDir\<close>, with what the call returned. The methods
  themselves never see the log. \<open>traced_list\<close> names each generator of a list by its
  position.
\<close>

datatype event =
  EStartWalk nat string
| EVisitDir nat string bool "error option"
| EStopWalk nat
| ESetErr nat "error option"

definition traced ::
    "nat \<Rightarrow> ('w, 's, 'r) Generator \<Rightarrow> ('w \<times> event list, 's, 'r) Generator" where
  "traced k G =
     \<lparr>Generator.Name = (\<lambda>(w, l). Generator.Name G w),
      StartWalk = (\<lambda>p (w, l). (StartWalk G p w, l @ [EStartWalk k p])),
      StopWalk = (\<lambda>(w, l). (StopWalk G w, l @ [EStopWalk k])),
      VisitDir = (\<lambda>p (w, l).
         case VisitDir G p w of
           ((found, e), w') \<Rightarrow> ((found, e), (w', l @ [EVisitDir k p found e]))),
      Err = (\<lambda>(w, l). Err G w),
      SetErr = (\<lambda>x (w, l). (SetErr G x w, l @ [ESetErr k x])),
      ServiceGenerator = map_option (\<lambda>f (w, l). f w) (ServiceGenerator G),
      GroupGenerator = map_option (\<lambda>f (w, l). f w) (GroupGenerator G),
      ImportGenerator = map_option (\<lambda>f (w, l). f w) (ImportGenerator G)\<rparr>"

definition traced_at ::
    "('w, 's, 'r) Generator list \<Rightarrow> nat list \<Rightarrow> ('w \<times> event list, 's, 'r) Generator list" where
  "traced_at L ks = map (\<lambda>k. traced k (L ! k)) ks"

definition traced_list ::
    "('w, 's, 'r) Generator list \<Rightarrow> ('w \<times> event list, 's, 'r) Generator list" where
  "traced_list L = traced_at L [0..<length L]"

text \<open>
  A \<^verbatim>\<open>VisitDir\<close> error is genuine when it is neither nil nor the sentinel; \<open>failed\<close>
  is a logged \<^verbatim>\<open>VisitDir\<close> call that returned a genuine error.
\<close>

definition genuine :: "error option \<Rightarrow> bool" where
  "genuine e = (e \<noteq> None \<and> e \<noteq> Some SkipDir)"

fun is_VisitDir :: "event \<Rightarrow> bool" where
  "is_VisitDir (EVisitDir k p f x) = True"
| "is_VisitDir (EStartWalk k p) = False"
| "is_VisitDir (EStopWalk k) = False"
| "is_VisitDir (ESetErr k x) = False"

fun ev_gen :: "event \<Rightarrow> nat" where
  "ev_gen (EVisitDir k p f x) = k"
| "ev_gen (EStartWalk k p) = k"
| "ev_gen (EStopWalk k) = k"
| "ev_gen (ESetErr k x) = k"

fun ev_path :: "event \<Rightarrow> string" where
  "ev_path (EVisitDir k p f x) = p"
| "ev_path (EStartWalk k p) = p"
| "ev_path (EStopWalk k) = []"
| "ev_path (ESetErr k x) = []"

fun ev_found :: "event \<Rightarrow> bool" where
  "ev_found (EVisitDir k p f x) = f"
| "ev_found (EStartWalk k p) = False"
| "ev_found (EStopWalk k) = False"
| "ev_found (ESetErr k x) = False"

fun ev_err :: "event \<Rightarrow> error option" where
  "ev_err (EVisitDir k p f x) = x"
| "ev_err (EStartWalk k p) = None"
| "ev_err (EStopWalk k) = None"
| "ev_err (ESetErr k x) = None"

definition failed :: "event \<Rightarrow> bool" where
  "failed e = (is_VisitDir e \<and> genuine (ev_err e))"

text \<open>A node and the nodes below it, in the order of the walk.\<close>

fun subdirs :: "directory \<Rightarrow> directory list" where
  "subdirs (Directory path parent cs ign) =
     Directory path parent cs ign
       # concat (map (\<lambda>c. case c of None \<Rightarrow> [] | Some d \<Rightarrow> subdirs d) cs)"

text \<open>
  \<open>ignored_by p path\<close>: the resolved ruleset of \<open>p\<close> matches \<open>path\<close>, the test of
  \<^verbatim>\<open>NewDirectory\<close>. A node is \<open>admitted\<close> when neither it nor any of its ancestors is
  ignored by its own parent.
\<close>

definition ignored_by :: "directory \<Rightarrow> string \<Rightarrow> bool" where
  "ignored_by p path = (Ignores p \<noteq> None \<and> MatchesPath (the (Ignores p)) path)"

fun admitted :: "directory \<Rightarrow> bool" where
  "admitted (Directory path parent cs ign) =
     (case parent of None \<Rightarrow> True | Some p \<Rightarrow> \<not> ignored_by p path \<and> admitted p)"

text \<open>
  \<open>visit_log p ks acc L here r\<close>: what the first loop of \<^verbatim>\<open>directory.Generate\<close> logs and
  returns at path \<open>p\<close>, offered the generators of \<open>L\<close> at the positions \<open>ks\<close>, with
  those at \<open>acc\<close> already kept for the children.
\<close>

definition visit_log ::
    "string \<Rightarrow> nat list \<Rightarrow> nat list \<Rightarrow> ('w, 's, 'r) Generator list \<Rightarrow> event list
      \<Rightarrow> error + ('w \<times> event list, 's, 'r) Generator list \<Rightarrow> bool" where
  "visit_log p ks acc L here r =
     (map ev_gen here = take (length here) ks
      \<and> (\<forall>e \<in> set here. is_VisitDir e \<and> ev_path e = p)
      \<and> (\<forall>e \<in> set (butlast here). \<not> ev_found e \<and> \<not> failed e)
      \<and> (case r of
            Inl x \<Rightarrow> here \<noteq> [] \<and> failed (last here) \<and> x = WithStack (the (ev_err (last here)))
          | Inr cg \<Rightarrow>
              (here = [] \<or> \<not> failed (last here))
              \<and> (length here = length ks \<or> (here \<noteq> [] \<and> ev_found (last here)))
              \<and> cg = traced_at L
                    (acc @ map ev_gen (filter (\<lambda>e. ev_err e \<noteq> Some SkipDir) here))))"

text \<open>The paths of the nodes of a subtree; none for a nil node.\<close>

definition dpaths :: "directory option \<Rightarrow> string set" where
  "dpaths d = (case d of None \<Rightarrow> {} | Some n \<Rightarrow> directory.Path ` set (subdirs n))"

text \<open>
  \<open>walk_log P K evs r\<close>: what a walk logs and returns: only \<^verbatim>\<open>VisitDir\<close> calls, on
  generators at the positions \<open>K\<close> and at paths of \<open>P\<close>; no call but the last returned a
  genuine error; the walk returns an error exactly when the last call did, and then
  returns that error wrapped.
\<close>

definition walk_log :: "string set \<Rightarrow> nat set \<Rightarrow> event list \<Rightarrow> error option \<Rightarrow> bool" where
  "walk_log P K evs r =
     ((\<forall>e \<in> set evs. is_VisitDir e \<and> ev_gen e \<in> K \<and> ev_path e \<in> P)
      \<and> (\<forall>e \<in> set (butlast evs). \<not> failed e)
      \<and> (case r of
            None \<Rightarrow> evs = [] \<or> \<not> failed (last evs)
          | Some x \<Rightarrow> evs \<noteq> [] \<and> failed (last evs) \<and> wraps x (the (ev_err (last evs)))))"

text \<open>The collection with its generators traced.\<close>

definition traced_collection ::
    "('w, 's, 'r) GeneratorCollection \<Rightarrow> ('w \<times> event list, 's, 'r) GeneratorCollection" where
  "traced_collection g =
     \<lparr>Generators = traced_list (Generators g), Path = GeneratorCollection.Path g,
      Targets = Targets g\<rparr>"

text \<open>
  A small run. \<open>path_join\<close> joins clean relative paths as \<^verbatim>\<open>filepath.Join\<close> does. The
  directory \<^verbatim>\<open>r\<close> holds the directories \<^verbatim>\<open>a\<close> (with \<^verbatim>\<open>a/c\<close> below it), \<^verbatim>\<open>b\<close> and \<^verbatim>\<open>d\<close>
  and a regular file; its ignore file excludes \<^verbatim>\<open>r/b\<close>. A \<open>scripted\<close> generator embeds
  \<^verbatim>\<open>generatorBase\<close>, kept at position \<open>k\<close> of the state, and answers \<^verbatim>\<open>VisitDir\<close> from a
  table.
\<close>

definition path_join :: "string \<Rightarrow> string \<Rightarrow> string" where
  "path_join a b = a @ ''/'' @ b"

definition example_fs :: fsdir where
  "example_fs =
     FsDir (Compiled (Some (GitIgnore (\<lambda>p. p = ''r/b''))) None) None
       [SubDir ''a'' (FsDir NotExist None [SubDir ''c'' (FsDir NotExist None [])]),
        RegularFile ''f'',
        SubDir ''b'' (FsDir NotExist None [SubDir ''e'' (FsDir NotExist None [])]),
        SubDir ''d'' (FsDir NotExist None [])]"

definition scripted ::
    "nat \<Rightarrow> (string \<Rightarrow> bool \<times> error option) \<Rightarrow> (generatorBase list, unit, unit) Generator" where
  "scripted k script =
     \<lparr>Generator.Name = (\<lambda>w. ''scripted''),
      StartWalk = (\<lambda>p w. w[k := generatorBase_StartWalk p (w ! k)]),
      StopWalk = (\<lambda>w. w),
      VisitDir = (\<lambda>p w. (script p, w)),
      Err = (\<lambda>w. generatorBase_Err (w ! k)),
      SetErr = (\<lambda>x w. w[k := generatorBase_SetErr x (w ! k)]),
      ServiceGenerator = None, GroupGenerator = None, ImportGenerator = None\<rparr>"

definition example_state :: "generatorBase list" where
  "example_state =
     [\<lparr>err = Some (ErrorString ''stale''), basePath = ''''\<rparr>, \<lparr>err = None, basePath = ''''\<rparr>]"

definition started_state :: "generatorBase list" where
  "started_state = [\<lparr>err = None, basePath = ''r''\<rparr>, \<lparr>err = None, basePath = ''r''\<rparr>]"

definition example_run ::
    "(string \<Rightarrow> bool \<times> error option) \<Rightarrow> (string \<Rightarrow> bool \<times> error option)
      \<Rightarrow> (generatorBase list, unit, unit) GeneratorCollection" where
  "example_run s0 s1 =
     \<lparr>Generators = [scripted 0 s0, scripted 1 s1], Path = ''r'', Targets = []\<rparr>"

definition quiet :: "string \<Rightarrow> bool \<times> error option" where
  "quiet p = (False, None)"

definition fails_at :: "string \<Rightarrow> error \<Rightarrow> string \<Rightarrow> bool \<times> error option" where
  "fails_at q e p = (if p = q then (False, Some e) else (False, None))"

definition finds_at :: "string \<Rightarrow> string \<Rightarrow> bool \<times> error option" where
  "finds_at q p = (if p = q then (True, None) else (False, None))"

definition skips_at :: "string \<Rightarrow> string \<Rightarrow> bool \<times> error option" where
  "skips_at q p = (if p = q then (False, Some SkipDir) else (False, None))"

text \<open>
  The same directory when \<^verbatim>\<open>a\<close> cannot be listed, and when the ignore file of \<^verbatim>\<open>a\<close>
  does not compile.
\<close>

definition unreadable_fs :: fsdir where
  "unreadable_fs =
     FsDir NotExist None
       [SubDir ''a'' (FsDir NotExist (Some (ErrorString ''permission denied'')) []),
        SubDir ''d'' (FsDir NotExist None [])]"

definition bad_ignore_fs :: fsdir where
  "bad_ignore_fs =
     FsDir NotExist None
       [SubDir ''a'' (FsDir (Compiled None (Some (ErrorString ''bad pattern''))) None [])]"

text \<open>
  The nodes \<^verbatim>\<open>NewDirectory\<close> builds for \<open>example_fs\<close>. \<open>example_root0\<close> is the root as
  the first child sees it through \<open>Parent\<close>, \<open>example_root1\<close> as the last child does.
\<close>

definition example_ignore :: GitIgnore where
  "example_ignore = GitIgnore (\<lambda>p. p = ''r/b'')"

definition example_root0 :: directory where
  "example_root0 = Directory ''r'' None [] (Some example_ignore)"

definition example_c :: directory where
  "example_c = Directory ''r/a/c'' (Some (Directory ''r/a'' (Some example_root0) [] None)) [] None"

definition example_a :: directory where
  "example_a = Directory ''r/a'' (Some example_root0) [Some example_c] None"

definition example_root1 :: directory where
  "example_root1 = Directory ''r'' None [Some example_a, None] (Some example_ignore)"

definition example_d :: directory where
  "example_d = Directory ''r/d'' (Some example_root1) [] None"

definition example_root :: directory where
  "example_root =
     Directory ''r'' None [Some example_a, None, Some example_d] (Some example_ignore)"

text \<open>
  \<open>parents_ok d\<close>: below \<open>d\<close>, the \<open>Parent\<close> of every node is the node whose child slot
  it fills, as far as \<open>Path\<close>, \<open>Parent\<close> and \<open>ignores\<close> go.
\<close>

fun parents_ok :: "directory \<Rightarrow> bool" where
  "parents_ok (Directory path parent cs ign) =
     list_all (\<lambda>c. case c of
                  None \<Rightarrow> True
                | Some n \<Rightarrow>
                    (case Parent n of
                       None \<Rightarrow> False
                     | Some q \<Rightarrow> directory.Path q = path \<and> Parent q = parent \<and> ignores q = ign)
                    \<and> parents_ok n) cs"

section \<open>Aggregation\<close>

lemma fold_append_concat:
  "fold (\<lambda>x acc. acc @ f x) xs a = a @ concat (map f xs)"
  by (induction xs arbitrary: a) simp_all

lemma Imports_step:
  "(\<lambda>generator outImports.
      case ImportGenerator generator of
        Some imports \<Rightarrow>
          if Err generator w = None then outImports @ imports w else outImports
      | None \<Rightarrow> outImports) = (\<lambda>G acc. acc @ trusted_imports G w)"
  by (auto simp: fun_eq_iff trusted_imports_def split: option.splits)

text \<open>
  C7. \<^verbatim>\<open>Imports()\<close> is the concatenation, in the configured order, of the import
  strings of the generators that implement \<^verbatim>\<open>ImportGenerator\<close> and whose \<^verbatim>\<open>Err()\<close> is
  nil; nothing is sorted, and the targets play no part: any other allow-list gives the
  same result.
\<close>

theorem Imports_concat:
  "Imports g w =
     concat (map (\<lambda>G. the (ImportGenerator G) w)
       (filter (\<lambda>G. ImportGenerator G \<noteq> None \<and> Err G w = None) (Generators g)))
   \<and> Imports (g\<lparr>Targets := ts\<rparr>) w = Imports g w"
proof -
  have "concat (map (\<lambda>G. trusted_imports G w) gs) =
        concat (map (\<lambda>G. the (ImportGenerator G) w)
          (filter (\<lambda>G. ImportGenerator G \<noteq> None \<and> Err G w = None) gs))"
    for gs :: "('a, 'b, 'c) Generator list"
    by (induction gs) (auto simp: trusted_imports_def split: option.splits)
  then show ?thesis
    by (simp add: Imports_def Imports_step fold_append_concat)
qed

section \<open>Ignore rules\<close>

text \<open>
  C8. \<^verbatim>\<open>Ignores()\<close> returns the own ruleset of the first node that has one on the
  chain made of the node itself and then its ancestors, nearest first; when no node of
  the chain has a ruleset it returns nil.
\<close>

theorem Ignores_nearest:
  "Ignores d =
     (case List.find (\<lambda>a. ignores a \<noteq> None) (Parent_chain d) of
        Some a \<Rightarrow> ignores a
      | None \<Rightarrow> None)"
  by (induction d rule: Ignores.induct) (auto split: option.splits)

lemma fst_fold_collect:
  "fst (fold (\<lambda>x (out, m). (out @ f x, h x m)) xs (a, m0)) = a @ concat (map f xs)"
  by (induction xs arbitrary: a m0) simp_all

lemma Services_collect_step:
  "(\<lambda>generator (outServices, serviceToGenerator).
             case ServiceGenerator generator of
               Some services \<Rightarrow>
                 if Err generator w = None then
                   let found = services w
                   in (outServices @ found,
                       fold (\<lambda>service m.
                               m(ServiceConfig.Name service \<mapsto> Generator.Name generator w))
                         found serviceToGenerator)
                 else (outServices, serviceToGenerator)
             | None \<Rightarrow> (outServices, serviceToGenerator))
   = (\<lambda>G (out, m). (out @ trusted_services G w,
         fold (\<lambda>service m. m(ServiceConfig.Name service \<mapsto> Generator.Name G w))
           (trusted_services G w) m))"
  by (auto simp: fun_eq_iff trusted_services_def Let_def split: option.splits)

lemma Services_collect_eq:
  "fst (Services_collect gs w) = concat (map (\<lambda>G. trusted_services G w) gs)"
  unfolding Services_collect_def Services_collect_step
  using fst_fold_collect [of "\<lambda>G. trusted_services G w" _ gs "[]"] by simp

lemma Groups_collect_step:
  "(\<lambda>generator (outGroups, groupToGenerator).
             case GroupGenerator generator of
               Some groups \<Rightarrow>
                 if Err generator w = None then
                   let found = groups w
                   in (outGroups @ found,
                       fold (\<lambda>group m.
                               m(ServiceGroupConfig.Name group \<mapsto> Generator.Name generator w))
                         found groupToGenerator)
                 else (outGroups, groupToGenerator)
             | None \<Rightarrow> (outGroups, groupToGenerator))
   = (\<lambda>G (out, m). (out @ trusted_groups G w,
         fold (\<lambda>group m. m(ServiceGroupConfig.Name group \<mapsto> Generator.Name G w))
           (trusted_groups G w) m))"
  by (auto simp: fun_eq_iff trusted_groups_def Let_def split: option.splits)

lemma Groups_collect_eq:
  "fst (Groups_collect gs w) = concat (map (\<lambda>G. trusted_groups G w) gs)"
  unfolding Groups_collect_def Groups_collect_step
  using fst_fold_collect [of "\<lambda>G. trusted_groups G w" _ gs "[]"] by simp

lemma filterMap_dom:
  "fold (\<lambda>name m. m(name \<mapsto> ())) ts m0 n = (if n \<in> set ts then Some () else m0 n)"
  by (induction ts arbitrary: m0) auto

lemma fold_filter_append:
  "fold (\<lambda>x acc. if P x then acc @ [x] else acc) xs a = a @ filter P xs"
  by (induction xs arbitrary: a) simp_all

lemma Services_eq:
  "Services srt g w =
     srt ByName_Less
       (if Targets g = [] then concat (map (\<lambda>G. trusted_services G w) (Generators g))
        else filter (\<lambda>s. ServiceConfig.Name s \<in> set (Targets g))
               (concat (map (\<lambda>G. trusted_services G w) (Generators g))))"
  by (simp add: Services_def Services_collect_eq Let_def filterMap_dom fold_filter_append)

lemma Groups_eq:
  "Groups srt g w =
     srt ByGroupName_Less
       (if Targets g = [] then concat (map (\<lambda>G. trusted_groups G w) (Generators g))
        else filter (\<lambda>s. ServiceGroupConfig.Name s \<in> set (Targets g))
               (concat (map (\<lambda>G. trusted_groups G w) (Generators g))))"
  by (simp add: Groups_def Groups_collect_eq Let_def filterMap_dom fold_filter_append)

lemma sorted_wrt_not_less:
  "sorted_wrt (\<lambda>a b. \<not> f b < f a) xs = sorted (map f xs)" for f :: "'a \<Rightarrow> 'b::linorder"
  by (induction xs) (auto simp: not_less)

text \<open>
  C2. \<^verbatim>\<open>Services()\<close> and \<^verbatim>\<open>Groups()\<close> sort the working sequence of the specification:
  the records of the capable generators whose \<^verbatim>\<open>Err()\<close> is nil, concatenated in the
  configured order with duplicates kept, filtered by the allow-list when it is not empty.
  With a \<^verbatim>\<open>sort.Sort\<close> that keeps its contract the result holds exactly those records and
  is in ascending order of name.
\<close>

theorem Services_Groups_sorted:
  assumes "sort_Sort_contract ByName_Less (srtS ByName_Less)"
      and "sort_Sort_contract ByGroupName_Less (srtG ByGroupName_Less)"
  shows "Services srtS g w = srtS ByName_Less (Services_spec g w)
       \<and> mset (Services srtS g w) = mset (Services_spec g w)
       \<and> sorted (map ServiceConfig.Name (Services srtS g w))
       \<and> Groups srtG g w = srtG ByGroupName_Less (Groups_spec g w)
       \<and> mset (Groups srtG g w) = mset (Groups_spec g w)
       \<and> sorted (map ServiceGroupConfig.Name (Groups srtG g w))"
proof -
  have s: "Services srtS g w = srtS ByName_Less (Services_spec g w)"
    by (simp add: Services_eq Services_spec_def)
  have r: "Groups srtG g w = srtG ByGroupName_Less (Groups_spec g w)"
    by (simp add: Groups_eq Groups_spec_def)
  have ms: "mset (Services srtS g w) = mset (Services_spec g w)"
    using assms(1) by (simp add: s sort_Sort_contract_def)
  have mr: "mset (Groups srtG g w) = mset (Groups_spec g w)"
    using assms(2) by (simp add: r sort_Sort_contract_def)
  have "sorted_wrt (\<lambda>a b. \<not> ByName_Less b a) (Services srtS g w)"
    using assms(1) by (simp add: s sort_Sort_contract_def)
  then have ss: "sorted (map ServiceConfig.Name (Services srtS g w))"
    by (simp add: ByName_Less_def sorted_wrt_not_less)
  have "sorted_wrt (\<lambda>a b. \<not> ByGroupName_Less b a) (Groups srtG g w)"
    using assms(2) by (simp add: r sort_Sort_contract_def)
  then have sr: "sorted (map ServiceGroupConfig.Name (Groups srtG g w))"
    by (simp add: ByGroupName_Less_def sorted_wrt_not_less)
  from s r ms mr ss sr show ?thesis by blast
qed

lemma sort_key_contract:
  "sort_Sort_contract (\<lambda>a b. f a < f b) (sort_key f)" for f :: "'a \<Rightarrow> 'b::linorder"
  by (simp add: sort_Sort_contract_def sorted_wrt_not_less)

lemma less_string_simps:
  "((c # cs) < (d # ds)) = (of_char c < (of_char d :: nat) \<or> c = d \<and> cs < ds)"
  "([] < (d # ds)) = True" "(cs < ([]::string)) = False"
  "((c # cs) \<le> (d # ds)) = (of_char c < (of_char d :: nat) \<or> c = d \<and> cs \<le> ds)"
  "([] \<le> cs) = True" "((c # cs) \<le> ([]::string)) = False"
  by (auto simp: less_char_def less_eq_char_def)

theorem Services_Groups_sorted_witness:
  "sort_Sort_contract ByName_Less (sort_key ServiceConfig.Name :: string ServiceConfig list \<Rightarrow> _)
   \<and> sort_Sort_contract ByGroupName_Less (sort_key ServiceGroupConfig.Name :: string ServiceGroupConfig list \<Rightarrow> _)
   \<and> Services (\<lambda>lt. sort_key ServiceConfig.Name) (example_collection []) ()
       = [\<lparr>ServiceConfig.Name = ''a'', Other = ''g1''\<rparr>,
          \<lparr>ServiceConfig.Name = ''a'', Other = ''g3''\<rparr>,
          \<lparr>ServiceConfig.Name = ''b'', Other = ''g1''\<rparr>]
   \<and> sorted (map ServiceConfig.Name
        (Services (\<lambda>lt. sort_key ServiceConfig.Name) (example_collection [''b'', ''c'']) ()))
   \<and> Services (\<lambda>lt. sort_key ServiceConfig.Name) (example_collection [''b'', ''c'']) ()
       = [\<lparr>ServiceConfig.Name = ''b'', Other = ''g1''\<rparr>]
   \<and> Groups (\<lambda>lt. sort_key ServiceGroupConfig.Name) (example_collection [''b'', ''c'']) () = []
   \<and> Groups (\<lambda>lt. sort_key ServiceGroupConfig.Name) (example_collection []) ()
       = [\<lparr>ServiceGroupConfig.Name = ''x'', Other = ''g3''\<rparr>,
          \<lparr>ServiceGroupConfig.Name = ''y'', Other = ''g1''\<rparr>,
          \<lparr>ServiceGroupConfig.Name = ''y'', Other = ''g3''\<rparr>]"
proof -
  have cS: "sort_Sort_contract ByName_Less (sort_key ServiceConfig.Name :: string ServiceConfig list \<Rightarrow> _)"
    using sort_key_contract [of ServiceConfig.Name] by (simp add: ByName_Less_def [abs_def])
  have cG: "sort_Sort_contract ByGroupName_Less (sort_key ServiceGroupConfig.Name :: string ServiceGroupConfig list \<Rightarrow> _)"
    using sort_key_contract [of ServiceGroupConfig.Name] by (simp add: ByGroupName_Less_def [abs_def])
  have spec1: "Services_spec (example_collection []) () =
      [\<lparr>ServiceConfig.Name = ''b'', Other = ''g1''\<rparr>, \<lparr>ServiceConfig.Name = ''a'', Other = ''g1''\<rparr>,
       \<lparr>ServiceConfig.Name = ''a'', Other = ''g3''\<rparr>]"
    by (simp add: Services_spec_def example_collection_def example_generator_def trusted_services_def)
  have spec2: "Services_spec (example_collection [''b'', ''c'']) () =
      [\<lparr>ServiceConfig.Name = ''b'', Other = ''g1''\<rparr>]"
    by (simp add: Services_spec_def example_collection_def example_generator_def trusted_services_def)
  have spec3: "Groups_spec (example_collection [''b'', ''c'']) () = []"
    by (simp add: Groups_spec_def example_collection_def example_generator_def trusted_groups_def)
  have spec4: "Groups_spec (example_collection []) () =
      [\<lparr>ServiceGroupConfig.Name = ''y'', Other = ''g1''\<rparr>, \<lparr>ServiceGroupConfig.Name = ''x'', Other = ''g3''\<rparr>,
       \<lparr>ServiceGroupConfig.Name = ''y'', Other = ''g3''\<rparr>]"
    by (simp add: Groups_spec_def example_collection_def example_generator_def trusted_groups_def)
  note t1 = Services_Groups_sorted [OF cS cG, of "example_collection []" "()"]
  note t2 = Services_Groups_sorted [OF cS cG, of "example_collection [''b'', ''c'']" "()"]
  show ?thesis
    using t1 t2 cS cG by (simp add: spec1 spec2 spec3 spec4 less_string_simps)
qed

section \<open>The walk\<close>

lemma directory_Generate_Nil: "directory_Generate d [] w = (None, w)"
  by (cases d) simp_all

lemma Generate_children_Nil: "Generate_children cs [] w = (None, w)"
  by (induction cs) (simp_all add: directory_Generate_Nil)

text \<open>
  C10. Walking a nil node, or any node with an empty generator list, returns nil and
  leaves the state of every generator as it was; so does walking any list of child slots
  with an empty list, whatever lies below them. On traced generators the state includes
  the log, which stays empty: no method of any generator is called.
\<close>

theorem Generate_noop:
  "directory_Generate None gs w = (None, w)
   \<and> directory_Generate d [] w = (None, w)
   \<and> Generate_children cs [] w = (None, w)
   \<and> directory_Generate None (traced_list L) (w0, []) = (None, (w0, []))
   \<and> directory_Generate d (traced_list []) (w0, []) = (None, (w0, []))
   \<and> Generate_children cs (traced_list []) (w0, []) = (None, (w0, []))"
  by (simp add: directory_Generate_Nil Generate_children_Nil traced_list_def traced_at_def)

lemma traced_at_simps:
  "traced_at L [] = []"
  "traced_at L (k # ks) = traced k (L ! k) # traced_at L ks"
  "traced_at L (ks @ js) = traced_at L ks @ traced_at L js"
  by (simp_all add: traced_at_def)

lemma VisitDir_traced:
  "VisitDir (traced k G) p (w, l) =
     (case VisitDir G p w of ((found, e), w') \<Rightarrow> ((found, e), (w', l @ [EVisitDir k p found e])))"
  by (simp add: traced_def)

lemma Generate_visit_traced:
  "Generate_visit p (traced_at L ks) (traced_at L acc) (w, l) = (r, (w', l'))
   \<Longrightarrow> \<exists>here. l' = l @ here \<and> visit_log p ks acc L here r"
proof (induction ks arbitrary: acc w l)
  case Nil
  then show ?case by (auto simp: traced_at_simps visit_log_def)
next
  case (Cons k ks)
  obtain f x w1 where v: "VisitDir (L ! k) p w = ((f, x), w1)"
    by (metis surj_pair)
  let ?e = "EVisitDir k p f x"
  show ?case
  proof (cases "genuine x")
    case True
    with Cons.prems v have "r = Inl (WithStack (the x))" "l' = l @ [?e]"
      by (auto simp: traced_at_simps VisitDir_traced genuine_def)
    with True show ?thesis
      by (auto simp: visit_log_def failed_def)
  next
    case ng: False
    let ?acc' = "if x \<noteq> Some SkipDir then acc @ [k] else acc"
    show ?thesis
    proof (cases f)
      case True
      with ng Cons.prems v have "r = Inr (traced_at L ?acc')" "l' = l @ [?e]"
        by (auto simp: traced_at_simps VisitDir_traced genuine_def)
      with True ng show ?thesis
        by (auto simp: visit_log_def failed_def)
    next
      case False
      with ng Cons.prems v
      have "Generate_visit p (traced_at L ks) (traced_at L ?acc') (w1, l @ [?e]) = (r, (w', l'))"
        by (auto simp: traced_at_simps VisitDir_traced genuine_def split: if_splits)
      from Cons.IH [OF this] obtain here
        where h: "l' = (l @ [?e]) @ here" "visit_log p ks ?acc' L here r"
        by blast
      have "visit_log p (k # ks) acc L (?e # here) r"
        using h(2) False ng
        by (cases r) (auto simp: visit_log_def failed_def)
      with h(1) show ?thesis by auto
    qed
  qed
qed

lemma walk_log_Nil: "walk_log P K [] None"
  by (simp add: walk_log_def)

lemma walk_log_None_all: "walk_log P K evs None \<Longrightarrow> e \<in> set evs \<Longrightarrow> \<not> failed e"
  by (cases evs rule: rev_cases) (auto simp: walk_log_def)

lemma walk_log_mono:
  "walk_log P K evs r \<Longrightarrow> P \<subseteq> P' \<Longrightarrow> K \<subseteq> K' \<Longrightarrow> walk_log P' K' evs r"
  unfolding walk_log_def by (cases r) auto

lemma walk_log_append:
  assumes "walk_log P K a None" and "walk_log P K b r"
  shows "walk_log P K (a @ b) r"
proof (cases b rule: rev_cases)
  case Nil
  with assms show ?thesis by (cases r) (auto simp: walk_log_def)
next
  case (snoc b' e)
  have na: "\<forall>x \<in> set a. \<not> failed x" using assms(1) walk_log_None_all by blast
  have "butlast (a @ b) = a @ b'" "last (a @ b) = e" using snoc by (simp_all add: butlast_append)
  with assms na snoc show ?thesis
    unfolding walk_log_def by (cases r) auto
qed

lemma wraps_WithStack: "wraps e x \<Longrightarrow> wraps (WithStack e) x"
  by simp

lemma walk_log_WithStack:
  "walk_log P K evs (Some e) \<Longrightarrow> walk_log P K evs (Some (WithStack e))"
  by (simp add: walk_log_def)

lemma visit_log_gens: "visit_log p ks acc L here r \<Longrightarrow> ev_gen ` set here \<subseteq> set ks"
proof -
  assume "visit_log p ks acc L here r"
  then have "map ev_gen here = take (length here) ks" by (simp add: visit_log_def)
  then have "set (map ev_gen here) \<subseteq> set ks" by (metis set_take_subset)
  then show ?thesis by simp
qed

lemma visit_log_walk_Inl:
  assumes "visit_log p ks acc L here (Inl e)" and "p \<in> P"
  shows "walk_log P (set ks) here (Some e)"
  using assms visit_log_gens [OF assms(1)]
  by (auto simp: visit_log_def walk_log_def)

lemma visit_log_walk_Inr:
  assumes "visit_log p ks acc L here (Inr cg)" and "p \<in> P"
  shows "walk_log P (set ks) here None"
  using assms visit_log_gens [OF assms(1)]
  by (auto simp: visit_log_def walk_log_def)

lemma visit_log_kept:
  assumes "visit_log p ks [] L here (Inr cg)"
  shows "\<exists>ks'. cg = traced_at L ks' \<and> set ks' \<subseteq> set ks"
proof -
  let ?ks' = "map ev_gen (filter (\<lambda>e. ev_err e \<noteq> Some SkipDir) here)"
  have "cg = traced_at L ?ks'" using assms by (simp add: visit_log_def)
  moreover have "set ?ks' \<subseteq> set ks" using visit_log_gens [OF assms] by auto
  ultimately show ?thesis by blast
qed

lemma Path_in_dpaths: "directory.Path d \<in> dpaths (Some d)"
  by (cases d) (simp add: dpaths_def)

lemma dpaths_children: "c \<in> set (children d) \<Longrightarrow> dpaths c \<subseteq> dpaths (Some d)"
  by (cases d; cases c) (auto simp: dpaths_def)

lemma walk_traced:
  "\<forall>ks w l r w' l'. gs = traced_at L ks \<longrightarrow> s = (w, l)
      \<longrightarrow> directory_Generate d gs s = (r, (w', l'))
      \<longrightarrow> (\<exists>evs. l' = l @ evs \<and> walk_log (dpaths d) (set ks) evs r)"
  "\<forall>ks w l r w' l'. gs' = traced_at L ks \<longrightarrow> s' = (w, l)
      \<longrightarrow> Generate_children cs gs' s' = (r, (w', l'))
      \<longrightarrow> (\<exists>evs. l' = l @ evs \<and> walk_log (\<Union> (dpaths ` set cs)) (set ks) evs r)"
proof (induction d gs s and cs gs' s' rule: directory_Generate_Generate_children.induct)
  case (1 generators w)
  show ?case by (auto simp: walk_log_Nil)
next
  case (2 d generators s)
  show ?case
  proof (intro allI impI)
    fix ks w l r w' l'
    assume gs: "generators = traced_at L ks" and s: "s = (w, l)"
      and run: "directory_Generate (Some d) generators s = (r, (w', l'))"
    show "\<exists>evs. l' = l @ evs \<and> walk_log (dpaths (Some d)) (set ks) evs r"
    proof (cases "generators = []")
      case True
      with run s show ?thesis by (auto simp: walk_log_Nil)
    next
      case ne: False
      obtain vr w1 l1 where v: "Generate_visit (directory.Path d) generators [] s = (vr, (w1, l1))"
        by (metis surj_pair)
      from v gs s have "Generate_visit (directory.Path d) (traced_at L ks) (traced_at L []) (w, l) = (vr, (w1, l1))"
        by (simp add: traced_at_simps)
      from Generate_visit_traced [OF this] obtain here
        where l1: "l1 = l @ here" and vl: "visit_log (directory.Path d) ks [] L here vr" by blast
      show ?thesis
      proof (cases vr)
        case (Inl e)
        with run v ne have "r = Some e" "l' = l1" by auto
        with l1 visit_log_walk_Inl [OF vl [unfolded Inl] Path_in_dpaths] show ?thesis by auto
      next
        case (Inr cg)
        with run v ne have rc: "Generate_children (children d) cg (w1, l1) = (r, (w', l'))" by auto
        from visit_log_kept [OF vl [unfolded Inr]] obtain ks'
          where cg: "cg = traced_at L ks'" and sub: "set ks' \<subseteq> set ks" by blast
        have "\<exists>evs. l' = l1 @ evs \<and> walk_log (\<Union> (dpaths ` set (children d))) (set ks') evs r"
          using "2.IH" [OF _ v [symmetric], of cg] ne Inr cg rc by blast
        then obtain below where b: "l' = l1 @ below"
           and wl: "walk_log (\<Union> (dpaths ` set (children d))) (set ks') below r"
          by blast
        have "\<Union> (dpaths ` set (children d)) \<subseteq> dpaths (Some d)"
          using dpaths_children by blast
        from walk_log_mono [OF wl this sub]
             visit_log_walk_Inr [OF vl [unfolded Inr] Path_in_dpaths]
        have "walk_log (dpaths (Some d)) (set ks) (here @ below) r"
          by (rule walk_log_append [rotated])
        with b l1 show ?thesis by auto
      qed
    qed
  qed
next
  case (3 childGenerators w)
  show ?case by (auto simp: walk_log_Nil)
next
  case (4 child cs childGenerators s)
  show ?case
  proof (intro allI impI)
    fix ks w l r w' l'
    assume gs: "childGenerators = traced_at L ks" and s: "s = (w, l)"
      and run: "Generate_children (child # cs) childGenerators s = (r, (w', l'))"
    obtain r1 w1 l1 where c: "directory_Generate child childGenerators s = (r1, (w1, l1))"
      by (metis surj_pair)
    from "4.IH"(1) gs s c obtain evs1
      where l1: "l1 = l @ evs1" and wl1: "walk_log (dpaths child) (set ks) evs1 r1" by blast
    have sub1: "dpaths child \<subseteq> \<Union> (dpaths ` set (child # cs))" by auto
    show "\<exists>evs. l' = l @ evs \<and> walk_log (\<Union> (dpaths ` set (child # cs))) (set ks) evs r"
    proof (cases r1)
      case (Some e)
      with run c have "r = Some (WithStack e)" "l' = l1" by auto
      with l1 walk_log_WithStack [OF walk_log_mono [OF wl1 [unfolded Some] sub1 subset_refl]]
      show ?thesis by auto
    next
      case None
      with run c have rc: "Generate_children cs childGenerators (w1, l1) = (r, (w', l'))" by auto
      have "\<exists>evs. l' = l1 @ evs \<and> walk_log (\<Union> (dpaths ` set cs)) (set ks) evs r"
        using "4.IH"(2) [OF c [symmetric]] None gs rc by blast
      then obtain evs2
        where l2: "l' = l1 @ evs2" and wl2: "walk_log (\<Union> (dpaths ` set cs)) (set ks) evs2 r"
        by blast
      have sub2: "\<Union> (dpaths ` set cs) \<subseteq> \<Union> (dpaths ` set (child # cs))" by auto
      from walk_log_append [OF walk_log_mono [OF wl1 [unfolded None] sub1 subset_refl]
                               walk_log_mono [OF wl2 sub2 subset_refl]]
      show ?thesis using l1 l2 by auto
    qed
  qed
qed

section \<open>Runs of the collection\<close>

lemma directory_Generate_traced:
  "directory_Generate d (traced_at L ks) (w, l) = (r, (w', l'))
   \<Longrightarrow> \<exists>evs. l' = l @ evs \<and> walk_log (dpaths d) (set ks) evs r"
  using walk_traced(1) [of "traced_at L ks" L "(w, l)" d] by blast

lemma Generate_children_traced:
  "Generate_children cs (traced_at L ks) (w, l) = (r, (w', l'))
   \<Longrightarrow> \<exists>evs. l' = l @ evs \<and> walk_log (\<Union> (dpaths ` set cs)) (set ks) evs r"
  using walk_traced(2) [of "traced_at L ks" L "(w, l)" cs] by blast

lemma fold_StartWalk_traced:
  "fold (\<lambda>G. StartWalk G p) (traced_at L ks) (w, l) =
     (fold (\<lambda>k. StartWalk (L ! k) p) ks w, l @ map (\<lambda>k. EStartWalk k p) ks)"
  by (induction ks arbitrary: w l) (simp_all add: traced_at_simps traced_def)

lemma fold_StopWalk_traced:
  "fold (\<lambda>G. StopWalk G) (traced_at L ks) (w, l) =
     (fold (\<lambda>k. StopWalk (L ! k)) ks w, l @ map EStopWalk ks)"
  by (induction ks arbitrary: w l) (simp_all add: traced_at_simps traced_def)

lemma Generate_traced_walk:
  assumes build: "NewDirectory join (GeneratorCollection.Path g) None root = Inr dir"
      and run: "Generate join (IsDirectory root) (traced_collection g) (w, l) = (r, (w', l'))"
  shows "\<exists>visits r0.
           l' = l @ map (\<lambda>k. EStartWalk k (GeneratorCollection.Path g)) [0..<length (Generators g)]
                  @ visits @ map EStopWalk [0..<length (Generators g)]
           \<and> walk_log (dpaths dir) {0..<length (Generators g)} visits r0
           \<and> r = errors_WithStack r0"
proof -
  let ?L = "Generators g" and ?p = "GeneratorCollection.Path g"
  let ?ks = "[0..<length ?L]"
  let ?starts = "map (\<lambda>k. EStartWalk k ?p) ?ks"
  obtain w1 where st: "fold (\<lambda>G. StartWalk G ?p) (traced_at ?L ?ks) (w, l) = (w1, l @ ?starts)"
    by (simp add: fold_StartWalk_traced)
  obtain r0 w2 l2 where wk: "directory_Generate dir (traced_at ?L ?ks) (w1, l @ ?starts) = (r0, (w2, l2))"
    by (metis surj_pair)
  from directory_Generate_traced [OF wk] obtain visits
    where l2: "l2 = (l @ ?starts) @ visits" and wl: "walk_log (dpaths dir) (set ?ks) visits r0"
    by blast
  have "Generate join (IsDirectory root) (traced_collection g) (w, l) =
          (errors_WithStack r0, fold (\<lambda>G. StopWalk G) (traced_at ?L ?ks) (w2, l2))"
    using build st wk
    by (simp add: Generate_def traced_collection_def traced_list_def Let_def)
  with run have "r = errors_WithStack r0" "l' = l2 @ map EStopWalk ?ks"
    by (simp_all add: fold_StopWalk_traced)
  with l2 wl show ?thesis by auto
qed

lemma Generate_traced_early:
  "Generate join (StatError e) g w = (Some (WithStack e), w)"
  "Generate join NotADirectory g w =
     (Some (errors_New (GeneratorCollection.Path g @ '' is not a directory'')), w)"
  "NewDirectory join (GeneratorCollection.Path g) None root = Inl e
     \<Longrightarrow> Generate join (IsDirectory root) g w = (Some (WithStack e), w)"
  by (simp_all add: Generate_def)

lemma nth_mid_visit:
  assumes "i < length (a @ v @ b)" and "is_VisitDir ((a @ v @ b) ! i)"
      and "\<forall>e \<in> set a. \<not> is_VisitDir e" and "\<forall>e \<in> set b. \<not> is_VisitDir e"
  shows "length a \<le> i \<and> i - length a < length v \<and> (a @ v @ b) ! i = v ! (i - length a)"
proof -
  have 1: "length a \<le> i"
  proof (rule ccontr)
    assume "\<not> length a \<le> i"
    then have "i < length a" by simp
    then have "(a @ v @ b) ! i \<in> set a" by (simp add: nth_append)
    with assms(2,3) show False by blast
  qed
  have 2: "i - length a < length v"
  proof (rule ccontr)
    assume n: "\<not> i - length a < length v"
    with 1 assms(1) have "(a @ v @ b) ! i = b ! (i - length a - length v)" "i - length a - length v < length b"
      by (auto simp: nth_append)
    then have "(a @ v @ b) ! i \<in> set b" by simp
    with assms(2,4) show False by blast
  qed
  from 1 2 show ?thesis by (simp add: nth_append)
qed

lemma walk_log_failed_last:
  assumes "walk_log P K visits r0" and "j < length visits" and "failed (visits ! j)"
  shows "Suc j = length visits \<and> (\<exists>x0. r0 = Some x0 \<and> wraps x0 (the (ev_err (visits ! j))))"
proof -
  have nb: "\<forall>e \<in> set (butlast visits). \<not> failed e" using assms(1) by (simp add: walk_log_def)
  have 1: "Suc j = length visits"
  proof (rule ccontr)
    assume "Suc j \<noteq> length visits"
    with assms(2) have "j < length (butlast visits)" by simp
    then have "butlast visits ! j \<in> set (butlast visits)" by (rule nth_mem)
    moreover have "butlast visits ! j = visits ! j" using \<open>j < length (butlast visits)\<close> by (simp add: nth_butlast)
    ultimately show False using nb assms(3) by auto
  qed
  then have ne: "visits \<noteq> []" and "length visits - 1 = j" by auto
  then have last: "last visits = visits ! j" by (simp add: last_conv_nth)
  with assms(1,3) ne have "\<exists>x0. r0 = Some x0 \<and> wraps x0 (the (ev_err (visits ! j)))"
    by (cases r0) (auto simp: walk_log_def)
  with 1 show ?thesis by simp
qed


section \<open>A run on a small tree\<close>

lemmas example_defs =
  Generate_def traced_collection_def example_run_def scripted_def example_fs_def
  path_join_def traced_list_def traced_at_def traced_def quiet_def fails_at_def finds_at_def
  skips_at_def example_state_def started_state_def generatorBase_StartWalk_def generatorBase_SetErr_def
  generatorBase_Err_def errors_WithStack_def errors_New_def Let_def

lemma example_error_run:
  "Generate path_join (IsDirectory example_fs)
     (traced_collection (example_run quiet (fails_at ''r/a/c'' (ErrorString ''boom''))))
     (example_state, []) =
   (Some (WithStack (WithStack (WithStack (WithStack (ErrorString ''boom''))))),
    (started_state,
     [EStartWalk 0 ''r'', EStartWalk 1 ''r'', EVisitDir 0 ''r'' False None,
      EVisitDir 1 ''r'' False None, EVisitDir 0 ''r/a'' False None,
      EVisitDir 1 ''r/a'' False None, EVisitDir 0 ''r/a/c'' False None,
      EVisitDir 1 ''r/a/c'' False (Some (ErrorString ''boom'')), EStopWalk 0, EStopWalk 1]))"
  by (simp add: example_defs)


section \<open>Errors of the walk\<close>

text \<open>The log of a run around a \<^verbatim>\<open>VisitDir\<close> call that returned a genuine error.\<close>

lemma VisitDir_error_log:
  assumes run: "Generate join fs (traced_collection g) (w, []) = (r, (w', evs))"
      and i: "i < length evs"
      and ev: "evs ! i = EVisitDir k p f (Some x)"
      and x: "x \<noteq> SkipDir"
  shows "drop (Suc i) evs = map EStopWalk [0..<length (Generators g)]
       \<and> (\<forall>e \<in> set (take (Suc i) evs). \<forall>n. e \<noteq> EStopWalk n)
       \<and> (\<forall>j<i. \<not> failed (evs ! j))
       \<and> (\<exists>r'. r = Some r' \<and> wraps r' x)"
proof -
  let ?n = "length (Generators g)" and ?p = "GeneratorCollection.Path g"
  let ?starts = "map (\<lambda>k. EStartWalk k ?p) [0..<?n]" and ?stops = "map EStopWalk [0..<?n]"
  from i have ne: "evs \<noteq> []" by auto
  obtain root dir where fs: "fs = IsDirectory root"
      and build: "NewDirectory join ?p None root = Inr dir"
  proof (cases fs)
    case (StatError e)
    with run ne show ?thesis by (simp add: Generate_def)
  next
    case NotADirectory
    with run ne show ?thesis by (simp add: Generate_def)
  next
    case (IsDirectory root)
    show ?thesis
    proof (cases "NewDirectory join ?p None root")
      case (Inl e)
      with run ne IsDirectory show ?thesis by (simp add: Generate_def traced_collection_def)
    next
      case (Inr dir)
      with that IsDirectory show ?thesis by blast
    qed
  qed
  from Generate_traced_walk [OF build run [unfolded fs]] obtain visits r0
    where evs: "evs = ?starts @ visits @ ?stops"
      and wl: "walk_log (dpaths dir) {0..<?n} visits r0"
      and r: "r = errors_WithStack r0"
    by auto
  have vis: "\<forall>e \<in> set visits. is_VisitDir e" using wl by (simp add: walk_log_def)
  have ls: "length ?starts = ?n" "length ?stops = ?n" by simp_all
  define j where "j = i - ?n"
  have "is_VisitDir (evs ! i)" using ev by simp
  with i evs have pos: "?n \<le> i" "j < length visits" "evs ! i = visits ! j"
    using nth_mid_visit [of i ?starts visits ?stops] by (auto simp: j_def)
  have vj: "visits ! j = EVisitDir k p f (Some x)" using pos ev by simp
  have fj: "failed (visits ! j)" using x by (simp add: vj failed_def genuine_def)
  from walk_log_failed_last [OF wl pos(2) fj]
  obtain x0 where last: "Suc j = length visits" and r0: "r0 = Some x0" and wr: "wraps x0 x"
    by (auto simp: vj)
  have i_eq: "Suc i = ?n + length visits" using pos last by (simp add: j_def)
  have tk: "take (Suc i) evs = ?starts @ visits" and dr: "drop (Suc i) evs = ?stops"
    using i_eq evs by simp_all
  have c2: "\<forall>e \<in> set (take (Suc i) evs). \<forall>n. e \<noteq> EStopWalk n"
    using vis unfolding tk by auto
  have c3: "\<forall>m<i. \<not> failed (evs ! m)"
  proof (intro allI impI)
    fix m assume mi: "m < i"
    show "\<not> failed (evs ! m)"
    proof (cases "m < ?n")
      case True
      then have "evs ! m = ?starts ! m" unfolding evs by (simp add: nth_append)
      also have "\<dots> = EStartWalk m ?p" using True by simp
      finally show ?thesis by (simp add: failed_def)
    next
      case False
      define m' where "m' = m - ?n"
      from False mi pos last have m: "m' < length (butlast visits)" by (auto simp: m'_def j_def)
      then have "visits ! m' \<in> set (butlast visits)"
        by (metis nth_butlast nth_mem)
      moreover have "m' < length visits" using m by simp
      then have "evs ! m = visits ! m'" using False unfolding evs
        by (simp add: nth_append m'_def)
      ultimately show ?thesis using wl by (simp add: walk_log_def)
    qed
  qed
  from r r0 wr have "\<exists>r'. r = Some r' \<and> wraps r' x" by (simp add: errors_WithStack_def)
  with dr c2 c3 show ?thesis by blast
qed

text \<open>
  C6. In the log of a run of \<^verbatim>\<open>Generate()\<close>, a \<^verbatim>\<open>VisitDir\<close> call that returns an error
  other than the sentinel is the last \<^verbatim>\<open>VisitDir\<close> call: after it come only the
  \<^verbatim>\<open>StopWalk\<close> calls, one for each configured generator in order, and there is no
  \<^verbatim>\<open>StopWalk\<close> before it. No earlier call returned a genuine error, and the run
  returns that error under \<^verbatim>\<open>WithStack\<close> wrappers.
\<close>

theorem VisitDir_error_aborts:
  assumes run: "Generate join fs (traced_collection g) (w, []) = (r, (w', evs))"
      and i: "i < length evs"
      and ev: "evs ! i = EVisitDir k p f (Some x)"
      and x: "x \<noteq> SkipDir"
  shows "drop (Suc i) evs = map EStopWalk [0..<length (Generators g)]
       \<and> (\<forall>e \<in> set (take (Suc i) evs). \<forall>n. e \<noteq> EStopWalk n)
       \<and> (\<forall>j<i. \<not> failed (evs ! j))
       \<and> (\<exists>r'. r = Some r' \<and> wraps r' x)"
  using run i ev x by (rule VisitDir_error_log)

theorem VisitDir_error_aborts_witness:
  "Generate path_join (IsDirectory example_fs)
     (traced_collection (example_run quiet (fails_at ''r/a/c'' (ErrorString ''boom''))))
     (example_state, []) =
   (Some (WithStack (WithStack (WithStack (WithStack (ErrorString ''boom''))))),
    (started_state,
     [EStartWalk 0 ''r'', EStartWalk 1 ''r'', EVisitDir 0 ''r'' False None,
      EVisitDir 1 ''r'' False None, EVisitDir 0 ''r/a'' False None,
      EVisitDir 1 ''r/a'' False None, EVisitDir 0 ''r/a/c'' False None,
      EVisitDir 1 ''r/a/c'' False (Some (ErrorString ''boom'')), EStopWalk 0, EStopWalk 1]))
   \<and> drop 8
        [EStartWalk 0 ''r'', EStartWalk 1 ''r'', EVisitDir 0 ''r'' False None,
         EVisitDir 1 ''r'' False None, EVisitDir 0 ''r/a'' False None,
         EVisitDir 1 ''r/a'' False None, EVisitDir 0 ''r/a/c'' False None,
         EVisitDir 1 ''r/a/c'' False (Some (ErrorString ''boom'')), EStopWalk 0, EStopWalk 1]
       = map EStopWalk [0..<2]
   \<and> (\<exists>r'. Some (WithStack (WithStack (WithStack (WithStack (ErrorString ''boom'')))))
              = Some r' \<and> wraps r' (ErrorString ''boom''))"
  using VisitDir_error_aborts [OF example_error_run, of 7 1 "''r/a/c''" False "ErrorString ''boom''"]
        example_error_run
  by (simp add: example_run_def eval_nat_numeral)

section \<open>Failures before the walk\<close>

text \<open>
  C9. When \<^verbatim>\<open>os.Stat\<close> of the root fails, when the root is not a directory, or when
  \<^verbatim>\<open>NewDirectory\<close> returns an error, \<^verbatim>\<open>Generate()\<close> returns an error and the state of
  the generators is what it was; on traced generators the log stays empty, so no method
  of any generator has been called. A listing that fails and an ignore file that does
  not compile make \<^verbatim>\<open>NewDirectory\<close> return an error, also from a subdirectory.
\<close>

theorem Generate_fails_before_walk:
  "Generate join (StatError e) g w = (Some (WithStack e), w)
   \<and> Generate join NotADirectory g w =
       (Some (errors_New (GeneratorCollection.Path g @ '' is not a directory'')), w)
   \<and> (NewDirectory join (GeneratorCollection.Path g) None root = Inl e
        \<longrightarrow> Generate join (IsDirectory root) g w = (Some (WithStack e), w)
          \<and> Generate join (IsDirectory root) (traced_collection g) (w, [])
              = (Some (WithStack e), (w, [])))
   \<and> NewDirectory join p None (FsDir NotExist (Some e) files) = Inl (WithStack e)
   \<and> NewDirectory join p None (FsDir (Compiled ign (Some e)) rderr files)
       = Inl (WithStack (WithStack e))
   \<and> (NewDirectory join (join (directory.Path d) name) (Some d) sub = Inl e
        \<longrightarrow> NewDirectory_files join (SubDir name sub # files) d = Inl (WithStack e))"
  by (simp add: Generate_def traced_collection_def errors_WithStack_def)

lemma unreadable_tree:
  "NewDirectory path_join ''r'' None unreadable_fs
     = Inl (WithStack (WithStack (ErrorString ''permission denied'')))"
  by (simp add: unreadable_fs_def path_join_def)

lemma bad_ignore_tree:
  "NewDirectory path_join ''r'' None bad_ignore_fs
     = Inl (WithStack (WithStack (WithStack (ErrorString ''bad pattern''))))"
  by (simp add: bad_ignore_fs_def path_join_def errors_WithStack_def)

theorem Generate_fails_before_walk_witness:
  "NewDirectory path_join (GeneratorCollection.Path (example_run quiet quiet)) None unreadable_fs
     = Inl (WithStack (WithStack (ErrorString ''permission denied'')))
   \<and> Generate path_join (IsDirectory unreadable_fs) (example_run quiet quiet) example_state
       = (Some (WithStack (WithStack (WithStack (ErrorString ''permission denied'')))),
          example_state)
   \<and> Generate path_join (IsDirectory unreadable_fs) (traced_collection (example_run quiet quiet))
         (example_state, [])
       = (Some (WithStack (WithStack (WithStack (ErrorString ''permission denied'')))),
          (example_state, []))
   \<and> NewDirectory path_join (GeneratorCollection.Path (example_run quiet quiet)) None bad_ignore_fs
     = Inl (WithStack (WithStack (WithStack (ErrorString ''bad pattern''))))
   \<and> Generate path_join (IsDirectory bad_ignore_fs) (traced_collection (example_run quiet quiet))
         (example_state, [])
       = (Some (WithStack (WithStack (WithStack (WithStack (ErrorString ''bad pattern''))))),
          (example_state, []))"
proof -
  have p: "GeneratorCollection.Path (example_run quiet quiet) = ''r''"
    by (simp add: example_run_def)
  have u: "NewDirectory path_join (GeneratorCollection.Path (example_run quiet quiet)) None unreadable_fs
     = Inl (WithStack (WithStack (ErrorString ''permission denied'')))"
    by (simp add: p unreadable_tree)
  have b: "NewDirectory path_join (GeneratorCollection.Path (example_run quiet quiet)) None bad_ignore_fs
     = Inl (WithStack (WithStack (WithStack (ErrorString ''bad pattern''))))"
    by (simp add: p bad_ignore_tree)
  from u b
    Generate_fails_before_walk [where join = path_join and g = "example_run quiet quiet"
      and w = example_state and root = unreadable_fs
      and e = "WithStack (WithStack (ErrorString ''permission denied''))"]
    Generate_fails_before_walk [where join = path_join and g = "example_run quiet quiet"
      and w = example_state and root = bad_ignore_fs
      and e = "WithStack (WithStack (WithStack (ErrorString ''bad pattern'')))"]
  show ?thesis by simp
qed

section \<open>Cleanup after an error\<close>





section \<open>Exclusive claims and skipped subtrees\<close>

lemma traced_list_Nil: "traced_list L = [] \<longleftrightarrow> L = []"
  by (simp add: traced_list_def traced_at_def)

lemma visit_log_upt:
  assumes "visit_log p [0..<n] acc L here vr"
  shows "length here \<le> n" and "map ev_gen here = [0..<length here]"
proof -
  from assms have m: "map ev_gen here = take (length here) [0..<n]"
    by (simp add: visit_log_def)
  then have "length (map ev_gen here) = length (take (length here) [0..<n])" by simp
  then show le: "length here \<le> n" by simp
  with m show "map ev_gen here = [0..<length here]" by (simp add: take_upt)
qed

lemma visit_log_found_last:
  assumes "visit_log p ks acc L here vr" and "i < length here" and "ev_found (here ! i)"
  shows "Suc i = length here"
proof (rule ccontr)
  assume "Suc i \<noteq> length here"
  with assms(2) have b: "i < length (butlast here)" by simp
  then have "butlast here ! i \<in> set (butlast here)" by (rule nth_mem)
  moreover have "butlast here ! i = here ! i" using b by (simp add: nth_butlast)
  ultimately show False using assms(1,3) by (auto simp: visit_log_def)
qed

lemma directory_Generate_split:
  assumes run: "directory_Generate (Some D) (traced_list L) (w, []) = (r, (w', evs))"
      and visit: "Generate_visit (directory.Path D) (traced_list L) [] (w, []) = (vr, (w1, here))"
      and ne: "here \<noteq> []"
  shows "visit_log (directory.Path D) [0..<length L] [] L here vr
       \<and> (\<exists>below. evs = here @ below
            \<and> (\<forall>e. vr = Inl e \<longrightarrow> below = [] \<and> r = Some e)
            \<and> (\<forall>e \<in> set below. is_VisitDir e
                  \<and> ev_gen e \<in> set (map ev_gen (filter (\<lambda>e. ev_err e \<noteq> Some SkipDir) here))
                  \<and> ev_path e \<in> \<Union> (dpaths ` set (children D))))"
proof -
  let ?ks = "[0..<length L]"
  let ?kept = "map ev_gen (filter (\<lambda>e. ev_err e \<noteq> Some SkipDir) here)"
  from visit have "Generate_visit (directory.Path D) (traced_at L ?ks) (traced_at L []) (w, []) = (vr, (w1, here))"
    by (simp add: traced_list_def traced_at_simps)
  from Generate_visit_traced [OF this] have vl: "visit_log (directory.Path D) ?ks [] L here vr"
    by simp
  have Lne: "traced_list L \<noteq> []"
  proof
    assume "traced_list L = []"
    with visit have "here = []" by simp
    with ne show False by simp
  qed
  show ?thesis
  proof (cases vr)
    case (Inl e)
    with run visit Lne have "r = Some e" "evs = here" by auto
    with vl Inl show ?thesis by auto
  next
    case (Inr cg)
    with vl have cg: "cg = traced_at L ?kept" by (simp add: visit_log_def)
    from run visit Lne Inr
    have "Generate_children (children D) (traced_at L ?kept) (w1, here) = (r, (w', evs))"
      by (auto simp: cg)
    from Generate_children_traced [OF this] obtain below
      where "evs = here @ below"
        and "walk_log (\<Union> (dpaths ` set (children D))) (set ?kept) below r" by blast
    with vl Inr show ?thesis by (auto simp: walk_log_def)
  qed
qed

lemma Generate_children_Cons_None:
  "directory_Generate c gs s = (None, s')
   \<Longrightarrow> Generate_children (c # cs) gs s = Generate_children cs gs s'"
  by simp


lemma Generate_visit_frame:
  assumes "\<forall>G \<in> set gs. \<forall>p s. obs (snd (VisitDir G p s)) = obs s"
  shows "obs (snd (Generate_visit p gs acc s)) = obs s
       \<and> (\<forall>cg. fst (Generate_visit p gs acc s) = Inr cg \<longrightarrow> set cg \<subseteq> set acc \<union> set gs)"
  using assms
proof (induction gs arbitrary: acc s)
  case Nil
  show ?case by simp
next
  case (Cons G gs)
  obtain f x s1 where v: "VisitDir G p s = ((f, x), s1)" by (metis surj_pair)
  have o1: "obs s1 = obs s" using Cons.prems v by (metis list.set_intros(1) snd_conv)
  have rest: "\<forall>G \<in> set gs. \<forall>p s. obs (snd (VisitDir G p s)) = obs s" using Cons.prems by simp
  note ih = Cons.IH [OF rest]
  show ?case
    using v o1 ih [of "acc @ [G]" s1] ih [of acc s1]
    by (auto simp: Let_def)
qed

lemma walk_frame:
  fixes gs gs' :: "('w, 's, 'r) Generator list" and obs :: "'w \<Rightarrow> 'o"
  shows "(\<forall>G \<in> set gs. \<forall>p s. obs (snd (VisitDir G p s)) = obs s)
     \<longrightarrow> obs (snd (directory_Generate d gs s)) = obs s"
    and "(\<forall>G \<in> set gs'. \<forall>p s. obs (snd (VisitDir G p s)) = obs s)
     \<longrightarrow> obs (snd (Generate_children cs gs' s')) = obs s'"
proof (induction d gs s and cs gs' s' rule: directory_Generate_Generate_children.induct)
  case (1 generators w)
  show ?case by simp
next
  case (2 d generators s)
  show ?case
  proof
    assume a: "\<forall>G \<in> set generators. \<forall>p s. obs (snd (VisitDir G p s)) = obs s"
    obtain vr s1 where v: "Generate_visit (directory.Path d) generators [] s = (vr, s1)"
      by (metis surj_pair)
    from Generate_visit_frame [OF a, of "directory.Path d" "[]" s] v
    have o1: "obs s1 = obs s" and sub: "\<forall>cg. vr = Inr cg \<longrightarrow> set cg \<subseteq> set generators"
      by auto
    show "obs (snd (directory_Generate (Some d) generators s)) = obs s"
    proof (cases "generators = []")
      case True
      then show ?thesis by simp
    next
      case ne: False
      show ?thesis
      proof (cases vr)
        case (Inl e)
        with v ne o1 show ?thesis by simp
      next
        case (Inr cg)
        with sub a have "\<forall>G \<in> set cg. \<forall>p s. obs (snd (VisitDir G p s)) = obs s" by blast
        with "2.IH" [OF _ v [symmetric], of cg] ne Inr
        have "obs (snd (Generate_children (children d) cg s1)) = obs s1" by simp
        with v ne Inr o1 show ?thesis by simp
      qed
    qed
  qed
next
  case (3 childGenerators w)
  show ?case by simp
next
  case (4 child cs childGenerators s)
  show ?case
  proof
    assume a: "\<forall>G \<in> set childGenerators. \<forall>p s. obs (snd (VisitDir G p s)) = obs s"
    obtain r1 s1 where c: "directory_Generate child childGenerators s = (r1, s1)"
      by (metis surj_pair)
    from "4.IH"(1) a c have o1: "obs s1 = obs s" by simp
    show "obs (snd (Generate_children (child # cs) childGenerators s)) = obs s"
    proof (cases r1)
      case None
      with "4.IH"(2) [OF c [symmetric]] a have "obs (snd (Generate_children cs childGenerators s1)) = obs s1"
        by simp
      with c None o1 show ?thesis by simp
    next
      case (Some e)
      with c o1 show ?thesis by simp
    qed
  qed
qed

lemma last_nth_Suc: "Suc i = length xs \<Longrightarrow> last xs = xs ! i"
  by (metis diff_Suc_1 last_conv_nth length_0_conv nat.distinct(1))

lemma traced_list_frame:
  fixes L :: "('w, 's, 'r) Generator list" and obs :: "'w \<Rightarrow> 'o"
  assumes "\<forall>G \<in> set L. \<forall>p s. obs (snd (VisitDir G p s)) = obs s"
  shows "\<forall>G \<in> set (traced_list L). \<forall>p s. (obs \<circ> fst) (snd (VisitDir G p s)) = (obs \<circ> fst) s"
proof (intro ballI allI)
  fix G :: "('w \<times> event list, 's, 'r) Generator" and p and s :: "'w \<times> event list"
  assume "G \<in> set (traced_list L)"
  then obtain k where k: "k < length L" and G: "G = traced k (L ! k)"
    by (auto simp: traced_list_def traced_at_def)
  obtain w l where s: "s = (w, l)" by (cases s)
  obtain f x w1 where v: "VisitDir (L ! k) p w = ((f, x), w1)" by (metis surj_pair)
  have "obs w1 = obs w" using assms k v by (metis nth_mem snd_conv)
  then show "(obs \<circ> fst) (snd (VisitDir G p s)) = (obs \<circ> fst) s"
    by (simp add: G s VisitDir_traced v)
qed


lemmas example_nodes =
  example_ignore_def example_root0_def example_c_def example_a_def example_root1_def
  example_d_def example_root_def

lemma example_tree_built:
  "NewDirectory path_join ''r'' None example_fs = Inr (Some example_root)"
  by (simp add: example_defs example_nodes)

lemma example_found_run:
  "Generate path_join (IsDirectory example_fs)
     (traced_collection (example_run (finds_at ''r/a'') quiet)) (example_state, []) =
   (None,
    (started_state,
     [EStartWalk 0 ''r'', EStartWalk 1 ''r'', EVisitDir 0 ''r'' False None,
      EVisitDir 1 ''r'' False None, EVisitDir 0 ''r/a'' True None,
      EVisitDir 0 ''r/a/c'' False None, EVisitDir 0 ''r/d'' False None,
      EVisitDir 1 ''r/d'' False None, EStopWalk 0, EStopWalk 1]))"
  by (simp add: example_defs)

lemma example_skip_run:
  "Generate path_join (IsDirectory example_fs)
     (traced_collection (example_run (skips_at ''r/a'') quiet)) (example_state, []) =
   (None,
    (started_state,
     [EStartWalk 0 ''r'', EStartWalk 1 ''r'', EVisitDir 0 ''r'' False None,
      EVisitDir 1 ''r'' False None, EVisitDir 0 ''r/a'' False (Some SkipDir),
      EVisitDir 1 ''r/a'' False None, EVisitDir 1 ''r/a/c'' False None,
      EVisitDir 0 ''r/d'' False None, EVisitDir 1 ''r/d'' False None,
      EStopWalk 0, EStopWalk 1]))"
  by (simp add: example_defs)


text \<open>
  C3. Let \<open>D\<close> be walked with the active list \<open>L\<close>, \<open>here\<close> being the calls of the first
  loop of that walk (those at \<open>D\<close>) and \<open>evs\<close> all the calls of the walk of \<open>D\<close>. If the
  call at position \<open>i\<close> returned \<^verbatim>\<open>found = true\<close>, then the calls at \<open>D\<close> are exactly
  those of the positions \<open>0\<close> to \<open>i\<close> in order, every later call of the walk of \<open>D\<close>
  is at a node below \<open>D\<close> and on a generator at a position up to \<open>i\<close>, and the list
  handed to the children is a subsequence of the positions \<open>0\<close> to \<open>i\<close>. The siblings
  of \<open>D\<close> are walked with the whole list \<open>L\<close>, whatever happened at \<open>D\<close>.
\<close>

theorem found_cuts_later_generators:
  assumes run: "directory_Generate (Some D) (traced_list L) (w, []) = (r, (w', evs))"
      and visit: "Generate_visit (directory.Path D) (traced_list L) [] (w, []) = (vr, (w1, here))"
      and i: "i < length here"
      and found: "ev_found (here ! i)"
  shows "map ev_gen here = [0..<Suc i]
       \<and> (\<forall>e \<in> set here. is_VisitDir e \<and> ev_path e = directory.Path D)
       \<and> take (Suc i) evs = here
       \<and> (\<forall>e \<in> set (drop (Suc i) evs).
             is_VisitDir e \<and> ev_gen e \<le> i \<and> ev_path e \<in> \<Union> (dpaths ` set (children D)))
       \<and> (\<forall>cg. vr = Inr cg \<longrightarrow> (\<exists>ks. cg = traced_at L ks \<and> subseq ks [0..<Suc i]))
       \<and> (\<forall>sibs s s'. directory_Generate (Some D) (traced_list L) s = (None, s')
             \<longrightarrow> Generate_children (Some D # sibs) (traced_list L) s
                 = Generate_children sibs (traced_list L) s')"
proof -
  let ?kept = "map ev_gen (filter (\<lambda>e. ev_err e \<noteq> Some SkipDir) here)"
  from i have ne: "here \<noteq> []" by auto
  from directory_Generate_split [OF run visit ne] obtain below
    where vl: "visit_log (directory.Path D) [0..<length L] [] L here vr"
      and evs: "evs = here @ below"
      and below: "\<forall>e \<in> set below. is_VisitDir e \<and> ev_gen e \<in> set ?kept
                  \<and> ev_path e \<in> \<Union> (dpaths ` set (children D))"
    by blast
  have len: "Suc i = length here" by (rule visit_log_found_last [OF vl i found])
  have gens: "map ev_gen here = [0..<Suc i]" using visit_log_upt(2) [OF vl] len by simp
  have c2: "\<forall>e \<in> set here. is_VisitDir e \<and> ev_path e = directory.Path D"
    using vl by (simp add: visit_log_def)
  have sub: "subseq ?kept [0..<Suc i]"
    using subseq_map [OF subseq_filter_left, of ev_gen "\<lambda>e. ev_err e \<noteq> Some SkipDir" here]
    by (simp add: gens)
  have "set ?kept \<subseteq> set (map ev_gen here)" by auto
  then have kept: "\<forall>k \<in> set ?kept. k \<le> i" unfolding gens by auto
  have c3: "take (Suc i) evs = here" and dr: "drop (Suc i) evs = below"
    using evs len by simp_all
  have c4: "\<forall>e \<in> set (drop (Suc i) evs).
             is_VisitDir e \<and> ev_gen e \<le> i \<and> ev_path e \<in> \<Union> (dpaths ` set (children D))"
    unfolding dr using below kept by blast
  have c5: "\<forall>cg. vr = Inr cg \<longrightarrow> (\<exists>ks. cg = traced_at L ks \<and> subseq ks [0..<Suc i])"
    using vl sub by (auto simp: visit_log_def)
  have c6: "\<forall>sibs s s'. directory_Generate (Some D) (traced_list L) s = (None, s')
             \<longrightarrow> Generate_children (Some D # sibs) (traced_list L) s
                 = Generate_children sibs (traced_list L) s'"
    by simp
  from gens c2 c3 c4 c5 c6 show ?thesis by blast
qed

theorem found_cuts_later_generators_witness:
  "directory_Generate (Some example_a) (traced_list [scripted 0 (finds_at ''r/a''), scripted 1 quiet])
      (started_state, [])
     = (None, (started_state, [EVisitDir 0 ''r/a'' True None, EVisitDir 0 ''r/a/c'' False None]))
   \<and> Generate_visit (directory.Path example_a)
        (traced_list [scripted 0 (finds_at ''r/a''), scripted 1 quiet]) [] (started_state, [])
     = (Inr (traced_at [scripted 0 (finds_at ''r/a''), scripted 1 quiet] [0]),
        (started_state, [EVisitDir 0 ''r/a'' True None]))
   \<and> map ev_gen [EVisitDir 0 ''r/a'' True None] = [0..<Suc 0]
   \<and> take (Suc 0) [EVisitDir 0 ''r/a'' True None, EVisitDir 0 ''r/a/c'' False None]
     = [EVisitDir 0 ''r/a'' True None]
   \<and> ev_gen (EVisitDir 0 ''r/a/c'' False None) \<le> 0
   \<and> Generate path_join (IsDirectory example_fs)
        (traced_collection (example_run (finds_at ''r/a'') quiet)) (example_state, []) =
      (None,
       (started_state,
        [EStartWalk 0 ''r'', EStartWalk 1 ''r'', EVisitDir 0 ''r'' False None,
         EVisitDir 1 ''r'' False None, EVisitDir 0 ''r/a'' True None,
         EVisitDir 0 ''r/a/c'' False None, EVisitDir 0 ''r/d'' False None,
         EVisitDir 1 ''r/d'' False None, EStopWalk 0, EStopWalk 1]))"
proof -
  let ?L = "[scripted 0 (finds_at ''r/a''), scripted 1 quiet]"
  have run: "directory_Generate (Some example_a) (traced_list ?L) (started_state, [])
     = (None, (started_state, [EVisitDir 0 ''r/a'' True None, EVisitDir 0 ''r/a/c'' False None]))"
    by (simp add: example_defs example_nodes)
  have visit: "Generate_visit (directory.Path example_a) (traced_list ?L) [] (started_state, [])
     = (Inr (traced_at ?L [0]), (started_state, [EVisitDir 0 ''r/a'' True None]))"
    by (simp add: example_defs example_nodes)
  from found_cuts_later_generators [OF run visit, of 0] run visit example_found_run
  show ?thesis by simp
qed


text \<open>
  C5. Let \<open>D\<close> be walked with the active list \<open>L\<close>, \<open>here\<close> being the calls at \<open>D\<close>
  and \<open>evs\<close> all the calls of the walk of \<open>D\<close>. If the call at position \<open>i\<close> returned the
  sentinel, then it is a \<^verbatim>\<open>VisitDir\<close> call on generator \<open>i\<close> at \<open>D\<close>; position \<open>i\<close> is
  not in the list handed to the children, and no later call of the walk of \<open>D\<close> is on it;
  the call does not count as failed: if the first loop returns an error it is from a later
  call, and unless the call also returned \<^verbatim>\<open>found\<close> the next generator of \<open>L\<close> is still
  offered \<open>D\<close>. The walk calls \<^verbatim>\<open>VisitDir\<close> only, never \<^verbatim>\<open>SetErr\<close>: what \<^verbatim>\<open>Err()\<close> of a
  generator returns changes only if some \<^verbatim>\<open>VisitDir\<close> changes it. The siblings of \<open>D\<close>
  are walked with the whole list \<open>L\<close>.
\<close>

theorem SkipDir_excludes_subtree:
  assumes run: "directory_Generate (Some D) (traced_list L) (w, []) = (r, (w', evs))"
      and visit: "Generate_visit (directory.Path D) (traced_list L) [] (w, []) = (vr, (w1, here))"
      and i: "i < length here"
      and skip: "ev_err (here ! i) = Some SkipDir"
  shows "here ! i = EVisitDir i (directory.Path D) (ev_found (here ! i)) (Some SkipDir)
       \<and> take (length here) evs = here
       \<and> (\<forall>e \<in> set (drop (length here) evs).
             is_VisitDir e \<and> ev_gen e \<noteq> i \<and> ev_path e \<in> \<Union> (dpaths ` set (children D)))
       \<and> (\<forall>cg. vr = Inr cg
             \<longrightarrow> (\<exists>ks. cg = traced_at L ks \<and> i \<notin> set ks \<and> subseq ks [0..<length L]))
       \<and> \<not> failed (here ! i)
       \<and> (\<forall>e. vr = Inl e \<longrightarrow> Suc i < length here \<and> failed (last here))
       \<and> (\<not> ev_found (here ! i) \<and> Suc i < length L \<longrightarrow> Suc i < length here)
       \<and> (\<forall>e \<in> set evs. is_VisitDir e)
       \<and> (\<forall>G. (\<forall>G' \<in> set L. \<forall>p s. Err G (snd (VisitDir G' p s)) = Err G s)
             \<longrightarrow> Err G w' = Err G w)
       \<and> (\<forall>sibs s s'. directory_Generate (Some D) (traced_list L) s = (None, s')
             \<longrightarrow> Generate_children (Some D # sibs) (traced_list L) s
                 = Generate_children sibs (traced_list L) s')"
proof -
  let ?kept = "map ev_gen (filter (\<lambda>e. ev_err e \<noteq> Some SkipDir) here)"
  from i have ne: "here \<noteq> []" by auto
  from directory_Generate_split [OF run visit ne] obtain below
    where vl: "visit_log (directory.Path D) [0..<length L] [] L here vr"
      and evs: "evs = here @ below"
      and below: "\<forall>e \<in> set below. is_VisitDir e \<and> ev_gen e \<in> set ?kept
                  \<and> ev_path e \<in> \<Union> (dpaths ` set (children D))"
    by blast
  note len = visit_log_upt(1) [OF vl] and gens = visit_log_upt(2) [OF vl]
  have here_vis: "\<forall>e \<in> set here. is_VisitDir e \<and> ev_path e = directory.Path D"
    using vl by (simp add: visit_log_def)
  have gi: "ev_gen (here ! j) = j" if "j < length here" for j
  proof -
    have "ev_gen (here ! j) = map ev_gen here ! j" using that by simp
    also have "\<dots> = j" using that by (simp add: gens)
    finally show ?thesis .
  qed
  have mem: "here ! i \<in> set here" using i by simp
  have c1: "here ! i = EVisitDir i (directory.Path D) (ev_found (here ! i)) (Some SkipDir)"
    using here_vis mem gi [OF i] skip by (cases "here ! i") auto
  have notin: "i \<notin> set ?kept"
  proof
    assume "i \<in> set ?kept"
    then obtain e where e: "e \<in> set here" "ev_err e \<noteq> Some SkipDir" "ev_gen e = i" by auto
    then obtain j where j: "j < length here" "here ! j = e" by (auto simp: in_set_conv_nth)
    with gi [of j] e(3) have "j = i" by simp
    with j e(2) skip show False by simp
  qed
  have c2: "take (length here) evs = here" and dr: "drop (length here) evs = below"
    using evs by simp_all
  have c3: "\<forall>e \<in> set (drop (length here) evs).
             is_VisitDir e \<and> ev_gen e \<noteq> i \<and> ev_path e \<in> \<Union> (dpaths ` set (children D))"
    unfolding dr using below notin by metis
  have sub: "subseq ?kept [0..<length L]"
  proof -
    have "subseq ?kept (map ev_gen here)"
      by (rule subseq_map) (rule subseq_filter_left)
    also have "map ev_gen here = take (length here) [0..<length L]"
      using gens len by (simp add: take_upt)
    finally show ?thesis
      by (rule subseq_order.order_trans) (metis append_take_drop_id prefix_def prefix_imp_subseq)
  qed
  have c4: "\<forall>cg. vr = Inr cg
             \<longrightarrow> (\<exists>ks. cg = traced_at L ks \<and> i \<notin> set ks \<and> subseq ks [0..<length L])"
    using vl sub notin by (auto simp: visit_log_def)
  have c5: "\<not> failed (here ! i)" using skip by (simp add: failed_def genuine_def)
  have c6: "\<forall>e. vr = Inl e \<longrightarrow> Suc i < length here \<and> failed (last here)"
  proof (intro allI impI)
    fix e assume "vr = Inl e"
    with vl have fl: "failed (last here)" by (simp add: visit_log_def)
    have "Suc i \<noteq> length here"
    proof
      assume "Suc i = length here"
      then have "last here = here ! i" by (rule last_nth_Suc)
      with fl c5 show False by simp
    qed
    with i fl show "Suc i < length here \<and> failed (last here)" by simp
  qed
  have c7: "\<not> ev_found (here ! i) \<and> Suc i < length L \<longrightarrow> Suc i < length here"
  proof
    assume a: "\<not> ev_found (here ! i) \<and> Suc i < length L"
    show "Suc i < length here"
    proof (rule ccontr)
      assume "\<not> Suc i < length here"
      with i have l: "Suc i = length here" by simp
      then have last: "last here = here ! i" by (rule last_nth_Suc)
      show False
      proof (cases vr)
        case (Inl e)
        with c6 l show False by simp
      next
        case (Inr cg)
        with vl have "length here = length [0..<length L] \<or> (here \<noteq> [] \<and> ev_found (last here))"
          by (simp add: visit_log_def)
        with a l last show False by simp
      qed
    qed
  qed
  have c8: "\<forall>e \<in> set evs. is_VisitDir e" using here_vis below evs by auto
  have c9: "\<forall>G. (\<forall>G' \<in> set L. \<forall>p s. Err G (snd (VisitDir G' p s)) = Err G s)
             \<longrightarrow> Err G w' = Err G w"
  proof (intro allI impI)
    fix G assume a: "\<forall>G' \<in> set L. \<forall>p s. Err G (snd (VisitDir G' p s)) = Err G s"
    have "(Err G \<circ> fst) (snd (directory_Generate (Some D) (traced_list L) (w, [])))
            = (Err G \<circ> fst) (w, [] :: event list)"
      by (rule mp [OF walk_frame(1) traced_list_frame [OF a]])
    with run show "Err G w' = Err G w" by simp
  qed
  have c10: "\<forall>sibs s s'. directory_Generate (Some D) (traced_list L) s = (None, s')
             \<longrightarrow> Generate_children (Some D # sibs) (traced_list L) s
                 = Generate_children sibs (traced_list L) s'"
    by simp
  from c1 c2 c3 c4 c5 c6 c7 c8 c9 c10 show ?thesis by blast
qed

theorem SkipDir_excludes_subtree_witness:
  "directory_Generate (Some example_a) (traced_list [scripted 0 (skips_at ''r/a''), scripted 1 quiet])
      (started_state, [])
     = (None, (started_state,
         [EVisitDir 0 ''r/a'' False (Some SkipDir), EVisitDir 1 ''r/a'' False None,
          EVisitDir 1 ''r/a/c'' False None]))
   \<and> Generate_visit (directory.Path example_a)
        (traced_list [scripted 0 (skips_at ''r/a''), scripted 1 quiet]) [] (started_state, [])
     = (Inr (traced_at [scripted 0 (skips_at ''r/a''), scripted 1 quiet] [1]),
        (started_state, [EVisitDir 0 ''r/a'' False (Some SkipDir), EVisitDir 1 ''r/a'' False None]))
   \<and> [EVisitDir 0 ''r/a'' False (Some SkipDir), EVisitDir 1 ''r/a'' False None] ! 0
     = EVisitDir 0 (directory.Path example_a) False (Some SkipDir)
   \<and> drop 2 [EVisitDir 0 ''r/a'' False (Some SkipDir), EVisitDir 1 ''r/a'' False None,
          EVisitDir 1 ''r/a/c'' False None] = [EVisitDir 1 ''r/a/c'' False None]
   \<and> ev_gen (EVisitDir 1 ''r/a/c'' False None) \<noteq> 0
   \<and> \<not> failed (EVisitDir 0 ''r/a'' False (Some SkipDir))
   \<and> Generate path_join (IsDirectory example_fs)
        (traced_collection (example_run (skips_at ''r/a'') quiet)) (example_state, []) =
      (None,
       (started_state,
        [EStartWalk 0 ''r'', EStartWalk 1 ''r'', EVisitDir 0 ''r'' False None,
         EVisitDir 1 ''r'' False None, EVisitDir 0 ''r/a'' False (Some SkipDir),
         EVisitDir 1 ''r/a'' False None, EVisitDir 1 ''r/a/c'' False None,
         EVisitDir 0 ''r/d'' False None, EVisitDir 1 ''r/d'' False None,
         EStopWalk 0, EStopWalk 1]))
   \<and> Err (scripted 0 (skips_at ''r/a'')) started_state = None"
proof -
  let ?L = "[scripted 0 (skips_at ''r/a''), scripted 1 quiet]"
  have run: "directory_Generate (Some example_a) (traced_list ?L) (started_state, [])
     = (None, (started_state,
         [EVisitDir 0 ''r/a'' False (Some SkipDir), EVisitDir 1 ''r/a'' False None,
          EVisitDir 1 ''r/a/c'' False None]))"
    by (simp add: example_defs example_nodes)
  have visit: "Generate_visit (directory.Path example_a) (traced_list ?L) [] (started_state, [])
     = (Inr (traced_at ?L [1]),
        (started_state, [EVisitDir 0 ''r/a'' False (Some SkipDir), EVisitDir 1 ''r/a'' False None]))"
    by (simp add: example_defs example_nodes)
  have e: "Err (scripted 0 (skips_at ''r/a'')) started_state = None"
    by (simp add: example_defs)
  from SkipDir_excludes_subtree [OF run visit, of 0] run visit example_skip_run e
  show ?thesis by (simp add: example_a_def failed_def genuine_def)
qed

section \<open>Ignored directories\<close>

lemma NewDirectory_ignored:
  "ignored_by parent path \<Longrightarrow> NewDirectory join path (Some parent) fs = Inr None"
  by (cases fs) (simp add: ignored_by_def)

lemma NewDirectory_files_ignored:
  "ignored_by d (join (directory.Path d) name)
   \<Longrightarrow> NewDirectory_files join (SubDir name sub # files) d
       = NewDirectory_files join files
           (Directory (directory.Path d) (Parent d) (children d @ [None]) (ignores d))"
  by (simp add: NewDirectory_ignored)

lemma NewDirectory_files_Some:
  "NewDirectory_files join files d = Inr r \<Longrightarrow> r \<noteq> None"
proof (induction files arbitrary: d)
  case Nil
  then show ?case by auto
next
  case (Cons f files)
  then show ?case
    by (cases f) (auto split: sum.splits)
qed

lemma NewDirectory_root_Some:
  "NewDirectory join path None fs = Inr r \<Longrightarrow> r \<noteq> None"
  by (cases fs) (auto split: prod.splits option.splits dest: NewDirectory_files_Some)

lemma admitted_fields:
  "admitted (Directory (directory.Path d) (Parent d) cs ign) = admitted d"
  by (cases d) simp

lemma subdirs_snoc:
  "set (subdirs (Directory p par (cs @ [c]) ign))
     \<subseteq> insert (Directory p par (cs @ [c]) ign)
         (set (subdirs (Directory p par cs ign))
          \<union> (case c of None \<Rightarrow> {} | Some n \<Rightarrow> set (subdirs n)))"
  by (cases c) auto

lemma built_admitted:
  "\<forall>d. (case parent of None \<Rightarrow> True | Some p \<Rightarrow> admitted p)
        \<longrightarrow> NewDirectory join path parent fs = Inr (Some d)
        \<longrightarrow> (\<forall>n \<in> set (subdirs d). admitted n)"
  "\<forall>d. (\<forall>n \<in> set (subdirs d0). admitted n)
        \<longrightarrow> NewDirectory_files join files d0 = Inr (Some d)
        \<longrightarrow> (\<forall>n \<in> set (subdirs d). admitted n)"
proof (induction join path parent fs and join files d0 rule: NewDirectory_NewDirectory_files.induct)
  case (1 join path parent ignf rderr files)
  show ?case
  proof (intro allI impI)
    fix d
    assume par: "case parent of None \<Rightarrow> True | Some p \<Rightarrow> admitted p"
       and b: "NewDirectory join path parent (FsDir ignf rderr files) = Inr (Some d)"
    let ?ig = "parent \<noteq> None \<and> Ignores (the parent) \<noteq> None
         \<and> MatchesPath (the (Ignores (the parent))) path"
    from b have ni: "\<not> ?ig" by (auto split: if_splits)
    obtain ign e where li: "loadIgnores ignf None = (ign, e)" by (metis surj_pair)
    from b ni li have e: "e = None" and rd: "rderr = None"
      and f: "NewDirectory_files join files (Directory path parent [] ign) = Inr (Some d)"
      by (auto split: option.splits)
    have "admitted (Directory path parent [] ign)"
      using par ni by (cases parent) (auto simp: ignored_by_def)
    then have "\<forall>n \<in> set (subdirs (Directory path parent [] ign)). admitted n" by simp
    with "1.IH" [OF ni li [symmetric] e rd] f
    show "\<forall>n \<in> set (subdirs d). admitted n" by blast
  qed
next
  case (2 join d)
  show ?case by simp
next
  case (3 join name files d)
  then show ?case by simp
next
  case (4 join name sub files d0)
  show ?case
  proof (intro allI impI)
    fix d
    assume a: "\<forall>n \<in> set (subdirs d0). admitted n"
       and b: "NewDirectory_files join (SubDir name sub # files) d0 = Inr (Some d)"
    obtain child where c: "NewDirectory join (join (directory.Path d0) name) (Some d0) sub = Inr child"
      using b by (cases "NewDirectory join (join (directory.Path d0) name) (Some d0) sub") auto
    let ?d1 = "Directory (directory.Path d0) (Parent d0) (children d0 @ [child]) (ignores d0)"
    from b c have f: "NewDirectory_files join files ?d1 = Inr (Some d)" by simp
    have d0: "admitted d0" using a by (cases d0) auto
    have cn: "\<forall>n \<in> (case child of None \<Rightarrow> {} | Some n \<Rightarrow> set (subdirs n)). admitted n"
    proof (cases child)
      case None
      then show ?thesis by simp
    next
      case (Some n)
      with "4.IH"(1) c d0 show ?thesis by simp
    qed
    have "set (subdirs ?d1) \<subseteq> insert ?d1 (set (subdirs d0)
                 \<union> (case child of None \<Rightarrow> {} | Some n \<Rightarrow> set (subdirs n)))"
      using subdirs_snoc [of "directory.Path d0" "Parent d0" "children d0" child "ignores d0"]
      by simp
    moreover have "admitted ?d1" using d0 admitted_fields by blast
    ultimately have "\<forall>n \<in> set (subdirs ?d1). admitted n" using a cn by blast
    with "4.IH"(2) [OF c] f show "\<forall>n \<in> set (subdirs d). admitted n"
      by blast
  qed
qed

lemma parents_ok_snoc:
  assumes "parents_ok d0"
      and "case c of None \<Rightarrow> True | Some n \<Rightarrow> Parent n = Some d0 \<and> parents_ok n"
  shows "parents_ok (Directory (directory.Path d0) (Parent d0) (children d0 @ [c]) (ignores d0))"
  using assms by (cases d0; cases c) simp_all

lemma built_parents_ok:
  "\<forall>d. NewDirectory join path parent fs = Inr (Some d)
        \<longrightarrow> parents_ok d \<and> directory.Path d = path \<and> Parent d = parent"
  "\<forall>d. parents_ok d0
        \<longrightarrow> NewDirectory_files join files d0 = Inr (Some d)
        \<longrightarrow> parents_ok d \<and> directory.Path d = directory.Path d0 \<and> Parent d = Parent d0"
proof (induction join path parent fs and join files d0 rule: NewDirectory_NewDirectory_files.induct)
  case (1 join path parent ignf rderr files)
  show ?case
  proof (intro allI impI)
    fix d
    assume b: "NewDirectory join path parent (FsDir ignf rderr files) = Inr (Some d)"
    let ?ig = "parent \<noteq> None \<and> Ignores (the parent) \<noteq> None
         \<and> MatchesPath (the (Ignores (the parent))) path"
    from b have ni: "\<not> ?ig" by (auto split: if_splits)
    obtain ign e where li: "loadIgnores ignf None = (ign, e)" by (metis surj_pair)
    from b ni li have e: "e = None" and rd: "rderr = None"
      and f: "NewDirectory_files join files (Directory path parent [] ign) = Inr (Some d)"
      by (auto split: option.splits)
    have "parents_ok (Directory path parent [] ign)" by simp
    with "1.IH" [OF ni li [symmetric] e rd] f
    show "parents_ok d \<and> directory.Path d = path \<and> Parent d = parent" by fastforce
  qed
next
  case (2 join d)
  show ?case by simp
next
  case (3 join name files d)
  then show ?case by simp
next
  case (4 join name sub files d0)
  show ?case
  proof (intro allI impI)
    fix d
    assume a: "parents_ok d0"
       and b: "NewDirectory_files join (SubDir name sub # files) d0 = Inr (Some d)"
    obtain child where c: "NewDirectory join (join (directory.Path d0) name) (Some d0) sub = Inr child"
      using b by (cases "NewDirectory join (join (directory.Path d0) name) (Some d0) sub") auto
    let ?d1 = "Directory (directory.Path d0) (Parent d0) (children d0 @ [child]) (ignores d0)"
    from b c have f: "NewDirectory_files join files ?d1 = Inr (Some d)" by simp
    have "case child of None \<Rightarrow> True | Some n \<Rightarrow> Parent n = Some d0 \<and> parents_ok n"
      using "4.IH"(1) c by (cases child) auto
    from parents_ok_snoc [OF a this] have "parents_ok ?d1" .
    with "4.IH"(2) [OF c] f
    show "parents_ok d \<and> directory.Path d = directory.Path d0 \<and> Parent d = Parent d0"
      by fastforce
  qed
qed

text \<open>
  C4. A directory whose path the resolved ruleset of its parent matches is never built:
  \<^verbatim>\<open>NewDirectory\<close> returns nil and no error whatever the file system holds there, and
  the parent gets a nil child slot. Walking a nil slot calls nothing. In a run on the tree
  that \<^verbatim>\<open>NewDirectory\<close> builds, every \<^verbatim>\<open>VisitDir\<close> call is at the path of a node of the
  tree, and every node of the tree is admitted: neither the node nor any of its ancestors
  is matched by the resolved ruleset of its parent.
\<close>

theorem ignored_directory_never_visited:
  assumes build: "NewDirectory join (GeneratorCollection.Path g) None root = Inr dir"
      and run: "Generate join (IsDirectory root) (traced_collection g) (w, []) = (r, (w', evs))"
  shows "(\<forall>parent path fs. ignored_by parent path
            \<longrightarrow> NewDirectory join path (Some parent) fs = Inr None)
       \<and> (\<forall>d name sub files. ignored_by d (join (directory.Path d) name)
            \<longrightarrow> NewDirectory_files join (SubDir name sub # files) d
                = NewDirectory_files join files
                    (Directory (directory.Path d) (Parent d) (children d @ [None]) (ignores d)))
       \<and> (\<forall>l. directory_Generate None (traced_list (Generators g)) (w, l) = (None, (w, l)))
       \<and> (\<exists>top. dir = Some top \<and> parents_ok top
             \<and> (\<forall>n \<in> set (subdirs top). admitted n)
             \<and> (\<forall>e \<in> set evs. is_VisitDir e
                   \<longrightarrow> (\<exists>n \<in> set (subdirs top). ev_path e = directory.Path n)))"
proof -
  from NewDirectory_root_Some [OF build] obtain top where top: "dir = Some top" by auto
  have ok: "parents_ok top" using built_parents_ok(1) build top by blast
  have adm: "\<forall>n \<in> set (subdirs top). admitted n"
    using built_admitted(1) [of None join "GeneratorCollection.Path g" root] build top by simp
  from Generate_traced_walk [OF build run] obtain visits r0
    where evs: "evs = map (\<lambda>k. EStartWalk k (GeneratorCollection.Path g)) [0..<length (Generators g)]
                      @ visits @ map EStopWalk [0..<length (Generators g)]"
      and wl: "walk_log (dpaths dir) {0..<length (Generators g)} visits r0"
    by auto
  have vis: "\<forall>e \<in> set evs. is_VisitDir e
                   \<longrightarrow> (\<exists>n \<in> set (subdirs top). ev_path e = directory.Path n)"
  proof (intro ballI impI)
    fix e assume "e \<in> set evs" and v: "is_VisitDir e"
    with evs have "e \<in> set visits" by auto
    with wl have "ev_path e \<in> dpaths dir" by (simp add: walk_log_def)
    then show "\<exists>n \<in> set (subdirs top). ev_path e = directory.Path n"
      by (auto simp: dpaths_def top)
  qed
  from top ok adm vis NewDirectory_ignored NewDirectory_files_ignored show ?thesis
    by (simp add: NewDirectory_ignored)
qed

lemma example_quiet_run:
  "Generate path_join (IsDirectory example_fs)
     (traced_collection (example_run quiet quiet)) (example_state, []) =
   (None,
    (started_state,
     [EStartWalk 0 ''r'', EStartWalk 1 ''r'', EVisitDir 0 ''r'' False None,
      EVisitDir 1 ''r'' False None, EVisitDir 0 ''r/a'' False None,
      EVisitDir 1 ''r/a'' False None, EVisitDir 0 ''r/a/c'' False None,
      EVisitDir 1 ''r/a/c'' False None, EVisitDir 0 ''r/d'' False None,
      EVisitDir 1 ''r/d'' False None, EStopWalk 0, EStopWalk 1]))"
  by (simp add: example_defs)

theorem ignored_directory_never_visited_witness:
  "NewDirectory path_join (GeneratorCollection.Path (example_run quiet quiet)) None example_fs
     = Inr (Some example_root)
   \<and> Generate path_join (IsDirectory example_fs)
       (traced_collection (example_run quiet quiet)) (example_state, []) =
     (None,
      (started_state,
       [EStartWalk 0 ''r'', EStartWalk 1 ''r'', EVisitDir 0 ''r'' False None,
        EVisitDir 1 ''r'' False None, EVisitDir 0 ''r/a'' False None,
        EVisitDir 1 ''r/a'' False None, EVisitDir 0 ''r/a/c'' False None,
        EVisitDir 1 ''r/a/c'' False None, EVisitDir 0 ''r/d'' False None,
        EVisitDir 1 ''r/d'' False None, EStopWalk 0, EStopWalk 1]))
   \<and> ignored_by example_root ''r/b''
   \<and> NewDirectory path_join ''r/b'' (Some example_root)
        (FsDir (StatFails (ErrorString ''denied'')) (Some (ErrorString ''denied'')) []) = Inr None
   \<and> children example_root = [Some example_a, None, Some example_d]
   \<and> parents_ok example_root
   \<and> list_all admitted (subdirs example_root)
   \<and> map directory.Path (subdirs example_root) = [''r'', ''r/a'', ''r/a/c'', ''r/d'']"
proof -
  have p: "GeneratorCollection.Path (example_run quiet quiet) = ''r''"
    by (simp add: example_run_def)
  have build: "NewDirectory path_join (GeneratorCollection.Path (example_run quiet quiet)) None
      example_fs = Inr (Some example_root)"
    by (simp add: p example_tree_built)
  have ig: "ignored_by example_root ''r/b''"
    by (simp add: ignored_by_def example_nodes)
  have paths: "map directory.Path (subdirs example_root) = [''r'', ''r/a'', ''r/a/c'', ''r/d'']"
    by (simp add: example_nodes)
  have ch: "children example_root = [Some example_a, None, Some example_d]"
    by (simp add: example_root_def)
  from ignored_directory_never_visited [OF build example_quiet_run]
  have t: "(\<forall>fs. NewDirectory path_join ''r/b'' (Some example_root) fs = Inr None)
        \<and> parents_ok example_root \<and> (\<forall>n \<in> set (subdirs example_root). admitted n)"
    using ig by simp
  then have nd: "NewDirectory path_join ''r/b'' (Some example_root)
        (FsDir (StatFails (ErrorString ''denied'')) (Some (ErrorString ''denied'')) []) = Inr None"
    by blast
  have la: "list_all admitted (subdirs example_root)" using t by (simp add: list_all_iff)
  from build example_quiet_run ig nd ch t la paths show ?thesis by blast
qed

section \<open>Traced and plain runs\<close>

lemma Generate_visit_untraced:
  "Generate_visit p (traced_at L ks) (traced_at L acc) (w, l) = (vr, (w', l'))
   \<Longrightarrow> (\<exists>e. vr = Inl e
          \<and> Generate_visit p (map ((!) L) ks) (map ((!) L) acc) w = (Inl e, w'))
     \<or> (\<exists>ks'. vr = Inr (traced_at L ks')
          \<and> Generate_visit p (map ((!) L) ks) (map ((!) L) acc) w = (Inr (map ((!) L) ks'), w'))"
proof (induction ks arbitrary: acc w l)
  case Nil
  then show ?case by (auto simp: traced_at_simps)
next
  case (Cons k ks)
  obtain f x w1 where v: "VisitDir (L ! k) p w = ((f, x), w1)" by (metis surj_pair)
  show ?case
  proof (cases "(x \<noteq> None \<and> x \<noteq> Some SkipDir) \<or> f")
    case True
    with Cons.prems v show ?thesis
      by (auto simp: traced_at_simps VisitDir_traced Let_def split: if_splits
               intro: exI [of _ "acc @ [k]"] exI [of _ acc])
  next
    case False
    let ?acc' = "if x \<noteq> Some SkipDir then acc @ [k] else acc"
    from False Cons.prems v
    have "Generate_visit p (traced_at L ks) (traced_at L ?acc') (w1, l @ [EVisitDir k p f x])
            = (vr, (w', l'))"
      by (auto simp: traced_at_simps VisitDir_traced split: if_splits)
    from Cons.IH [OF this] False v show ?thesis
      by (auto simp: Let_def split: if_splits)
  qed
qed

lemma walk_untraced:
  "\<forall>ks w l r w' l'. gs = traced_at L ks \<longrightarrow> s = (w, l)
      \<longrightarrow> directory_Generate d gs s = (r, (w', l'))
      \<longrightarrow> directory_Generate d (map ((!) L) ks) w = (r, w')"
  "\<forall>ks w l r w' l'. gs' = traced_at L ks \<longrightarrow> s' = (w, l)
      \<longrightarrow> Generate_children cs gs' s' = (r, (w', l'))
      \<longrightarrow> Generate_children cs (map ((!) L) ks) w = (r, w')"
proof (induction d gs s and cs gs' s' rule: directory_Generate_Generate_children.induct)
  case (1 generators w)
  show ?case by auto
next
  case (2 d generators s)
  show ?case
  proof (intro allI impI)
    fix ks w l r w' l'
    assume gs: "generators = traced_at L ks" and s: "s = (w, l)"
      and run: "directory_Generate (Some d) generators s = (r, (w', l'))"
    show "directory_Generate (Some d) (map ((!) L) ks) w = (r, w')"
    proof (cases "ks = []")
      case True
      with run gs s show ?thesis by (simp add: traced_at_simps)
    next
      case ne: False
      then have gne: "generators \<noteq> []" using gs by (simp add: traced_at_def)
      obtain vr w1 l1 where v: "Generate_visit (directory.Path d) generators [] s = (vr, (w1, l1))"
        by (metis surj_pair)
      from v gs s
      have "Generate_visit (directory.Path d) (traced_at L ks) (traced_at L []) (w, l) = (vr, (w1, l1))"
        by (simp add: traced_at_simps)
      from Generate_visit_untraced [OF this]
      consider (err) e where "vr = Inl e"
          "Generate_visit (directory.Path d) (map ((!) L) ks) [] w = (Inl e, w1)"
        | (ok) ks' where "vr = Inr (traced_at L ks')"
          "Generate_visit (directory.Path d) (map ((!) L) ks) [] w = (Inr (map ((!) L) ks'), w1)"
        by auto
      then show ?thesis
      proof cases
        case err
        with run v gne ne show ?thesis by auto
      next
        case ok
        with run v gne
        have rc: "Generate_children (children d) (traced_at L ks') (w1, l1) = (r, (w', l'))"
          by auto
        have "Generate_children (children d) (map ((!) L) ks') w1 = (r, w')"
          using "2.IH" [OF _ v [symmetric], of "traced_at L ks'"] gne ok(1) rc by blast
        with ok(2) ne show ?thesis by simp
      qed
    qed
  qed
next
  case (3 childGenerators w)
  show ?case by auto
next
  case (4 child cs childGenerators s)
  show ?case
  proof (intro allI impI)
    fix ks w l r w' l'
    assume gs: "childGenerators = traced_at L ks" and s: "s = (w, l)"
      and run: "Generate_children (child # cs) childGenerators s = (r, (w', l'))"
    obtain r1 w1 l1 where c: "directory_Generate child childGenerators s = (r1, (w1, l1))"
      by (metis surj_pair)
    from "4.IH"(1) gs s c have u: "directory_Generate child (map ((!) L) ks) w = (r1, w1)"
      by blast
    show "Generate_children (child # cs) (map ((!) L) ks) w = (r, w')"
    proof (cases r1)
      case (Some e)
      with run c u show ?thesis by auto
    next
      case None
      with run c have rc: "Generate_children cs childGenerators (w1, l1) = (r, (w', l'))" by auto
      have "Generate_children cs (map ((!) L) ks) w1 = (r, w')"
        using "4.IH"(2) [OF c [symmetric]] None gs rc by blast
      with u None show ?thesis by simp
    qed
  qed
qed

text \<open>
  Tracing changes nothing but the log: a run on traced generators returns what the run
  on the generators themselves returns, and leaves them in the same state.
\<close>

lemma Generate_untraced:
  assumes "Generate join fs (traced_collection g) (w, l) = (r, (w', l'))"
  shows "Generate join fs g w = (r, w')"
proof (cases fs)
  case (StatError e)
  with assms show ?thesis by (simp add: Generate_def)
next
  case NotADirectory
  with assms show ?thesis by (simp add: Generate_def traced_collection_def)
next
  case (IsDirectory root)
  let ?L = "Generators g" and ?p = "GeneratorCollection.Path g"
  let ?ks = "[0..<length ?L]"
  have L: "map ((!) ?L) ?ks = ?L" by (rule map_nth)
  show ?thesis
  proof (cases "NewDirectory join ?p None root")
    case (Inl e)
    with assms IsDirectory show ?thesis by (simp add: Generate_def traced_collection_def)
  next
    case (Inr dir)
    have st: "fold (\<lambda>k. StartWalk (?L ! k) ?p) ?ks w = fold (\<lambda>G. StartWalk G ?p) ?L w"
      using fold_map [of "\<lambda>G. StartWalk G ?p" "(!) ?L" ?ks] by (simp add: L comp_def)
    have sp: "fold (\<lambda>k. StopWalk (?L ! k)) ?ks v = fold (\<lambda>G. StopWalk G) ?L v" for v
      using fold_map [of "\<lambda>G. StopWalk G" "(!) ?L" ?ks] by (simp add: L comp_def)
    let ?w1 = "fold (\<lambda>G. StartWalk G ?p) ?L w"
    obtain r0 w2 l2 where wk: "directory_Generate dir (traced_at ?L ?ks)
        (?w1, l @ map (\<lambda>k. EStartWalk k ?p) ?ks) = (r0, (w2, l2))"
      by (metis surj_pair)
    have "directory_Generate dir (map ((!) ?L) ?ks) ?w1 = (r0, w2)"
      using walk_untraced(1) [of "traced_at ?L ?ks" ?L _ dir] wk by blast
    then have u: "directory_Generate dir ?L ?w1 = (r0, w2)" by (simp only: L)
    from assms IsDirectory Inr wk
    have "r = errors_WithStack r0" "w' = fold (\<lambda>G. StopWalk G) ?L w2"
      by (simp_all add: Generate_def traced_collection_def traced_list_def Let_def
            fold_StartWalk_traced fold_StopWalk_traced st sp)
    with IsDirectory Inr u show ?thesis by (simp add: Generate_def Let_def)
  qed
qed

end
